theory Spec2Isabelle
  imports Main "HOL-Library.Finite_Map" "HOL-Library.AList" "HOL-Library.Char_ord"
    "HOL-Library.List_Lexorder"
begin

section \<open>Text lines and the diff printer\<close>

text \<open>
  \<^verbatim>\<open>while (getline(ss, line)) lines.push_back(line);\<close> over a \<^verbatim>\<open>stringstream\<close>:
  \<^verbatim>\<open>std::getline\<close> collects characters up to the next line feed (which it drops) or
  the end of the stream, and fails only when the stream ends before any character was
  read. So a final line without a line feed is still a line, and a final line feed
  opens no empty line. The first argument is the line collected so far.
\<close>

fun getlines_from :: "string \<Rightarrow> string \<Rightarrow> string list" where
  "getlines_from line [] = (if line = [] then [] else [line])"
| "getlines_from line (c # cs) =
     (if c = CHR 0x0A then line # getlines_from [] cs else getlines_from (line @ [c]) cs)"

definition getlines :: "string \<Rightarrow> string list" where
  "getlines content = getlines_from [] content"

text \<open>
  The loop of \<^verbatim>\<open>MiniGit::printDiff\<close> with its two \<^verbatim>\<open>size_t\<close> cursors; the result is the
  text sent to \<^verbatim>\<open>cout\<close> by the loop. Both cursors stay below the vector sizes plus one,
  so the unsigned arithmetic never wraps.
\<close>

function printDiff_loop :: "string list \<Rightarrow> string list \<Rightarrow> nat \<Rightarrow> nat \<Rightarrow> string" where
  "printDiff_loop oldLines newLines i j =
     (if i < length oldLines \<or> j < length newLines then
        (if i < length oldLines \<and> j < length newLines \<and> oldLines ! i = newLines ! j then
           ''  '' @ oldLines ! i @ [CHR 0x0A] @ printDiff_loop oldLines newLines (i + 1) (j + 1)
         else
           (if i < length oldLines then ''- '' @ oldLines ! i @ [CHR 0x0A] else [])
           @ (if j < length newLines then ''+ '' @ newLines ! j @ [CHR 0x0A] else [])
           @ printDiff_loop oldLines newLines
               (if i < length oldLines then i + 1 else i)
               (if j < length newLines then j + 1 else j))
      else [])"
  by pat_completeness auto
termination
  by (relation "measure (\<lambda>(oldLines, newLines, i, j). (length oldLines - i) + (length newLines - j))")
    auto

declare printDiff_loop.simps [simp del]

definition printDiff :: "string \<Rightarrow> string \<Rightarrow> string \<Rightarrow> string" where
  "printDiff oldContent newContent filename =
     (let oldLines = getlines oldContent;
          newLines = getlines newContent
      in (if filename \<noteq> []
          then ''--- a/'' @ filename @ [CHR 0x0A] @ ''+++ b/'' @ filename @ [CHR 0x0A]
          else [])
         @ printDiff_loop oldLines newLines 0 0
         @ [CHR 0x0A])"

subsection \<open>The reference walk of the specification\<close>

datatype tagged_line = Context_line string | Removed_line string | Added_line string

text \<open>
  The walk as the specification words it, on the remaining lines of both sides: equal
  heads give one context line and both sides advance; otherwise the old head (if any) is
  removed and then the new head (if any) is added, in the same step; the walk ends when
  both sides are exhausted.
\<close>

fun diffLines :: "string list \<Rightarrow> string list \<Rightarrow> tagged_line list" where
  "diffLines [] [] = []"
| "diffLines (x # xs) [] = Removed_line x # diffLines xs []"
| "diffLines [] (y # ys) = Added_line y # diffLines [] ys"
| "diffLines (x # xs) (y # ys) =
     (if x = y then Context_line x # diffLines xs ys
      else Removed_line x # Added_line y # diffLines xs ys)"

fun render_line :: "tagged_line \<Rightarrow> string" where
  "render_line (Context_line l) = ''  '' @ l @ [CHR 0x0A]"
| "render_line (Removed_line l) = ''- '' @ l @ [CHR 0x0A]"
| "render_line (Added_line l) = ''+ '' @ l @ [CHR 0x0A]"

definition render_lines :: "tagged_line list \<Rightarrow> string" where
  "render_lines ts = concat (map render_line ts)"

definition diff_header :: "string \<Rightarrow> string list" where
  "diff_header filename =
     (if filename = [] then [] else [''--- a/'' @ filename, ''+++ b/'' @ filename])"

section \<open>Collaborators outside the sources\<close>

text \<open>
  The file system the program works on. Paths are compared as the strings the program
  builds, so two spellings of one path are two files here. \<open>writable\<close> says for which
  paths a write succeeds: it is the only source of I/O failure in the model.
\<close>

record storage =
  files :: "(string, string) fmap"
  dirs :: "string set"
  writable :: "string \<Rightarrow> bool"

text \<open>
  Modelled from the spec: \<^verbatim>\<open>FileUtils::fileExists\<close> (FileUtils.h is not among the sources)
  is \<^verbatim>\<open>Storage.exists(path) -> bool\<close>.
\<close>

definition fileExists :: "storage \<Rightarrow> string \<Rightarrow> bool" where
  "fileExists st path = (fmlookup (files st) path \<noteq> None)"

text \<open>
  Modelled from the spec: \<^verbatim>\<open>FileUtils::directoryExists\<close> (FileUtils.h is not among the
  sources), the existence check of the Storage capability for directories.
\<close>

definition directoryExists :: "storage \<Rightarrow> string \<Rightarrow> bool" where
  "directoryExists st path = (path \<in> dirs st)"

text \<open>
  Modelled from the spec: \<^verbatim>\<open>FileUtils::readFromFile\<close> (FileUtils.h is not among the
  sources) is \<^verbatim>\<open>Storage.read(path) -> bytes | NotFound\<close>. \<open>None\<close> is the call returning
  \<^verbatim>\<open>false\<close>, which leaves the caller's string as it was.
\<close>

definition readFromFile :: "storage \<Rightarrow> string \<Rightarrow> string option" where
  "readFromFile st path = fmlookup (files st) path"

text \<open>
  Modelled from the spec: \<^verbatim>\<open>FileUtils::writeToFile\<close> (FileUtils.h is not among the
  sources) is \<^verbatim>\<open>Storage.write(path, bytes) -> Result<(), IOError>\<close>: it replaces the whole
  content and returns \<^verbatim>\<open>true\<close>, or changes nothing and returns \<^verbatim>\<open>false\<close>.
\<close>

definition writeToFile :: "storage \<Rightarrow> string \<Rightarrow> string \<Rightarrow> bool \<times> storage" where
  "writeToFile st path content =
     (if writable st path then (True, st\<lparr>files := fmupd path content (files st)\<rparr>)
      else (False, st))"

text \<open>
  Modelled from the spec: \<^verbatim>\<open>std::filesystem::remove\<close> as \<^verbatim>\<open>Storage.remove(path)\<close>; removing
  a file that does not exist changes nothing.
\<close>

definition fs_remove :: "storage \<Rightarrow> string \<Rightarrow> storage" where
  "fs_remove st path = st\<lparr>files := fmdrop path (files st)\<rparr>"

text \<open>
  Modelled from the spec: the commit record of \<^verbatim>\<open>Commit.h\<close> (not among the sources), with
  the fields the specification's data model lists. The two \<^verbatim>\<open>unordered_map\<close>s of the
  program (a commit's file map and the staging area) are association lists read with
  \<open>map_of\<close>: \<^verbatim>\<open>m[k] = v\<close> is \<open>AList.update k v m\<close>, \<^verbatim>\<open>m.erase(k)\<close> is \<open>AList.delete k m\<close>,
  and the list order stands for the container's unspecified iteration order.
\<close>

record CommitNode =
  message :: string
  timestamp :: string
  parentHashes :: "string list"
  fileBlobs :: "(string \<times> string) list"

text \<open>
  What the sources take from \<^verbatim>\<open>Hashing.h\<close>, \<^verbatim>\<open>Commit.h\<close> and the clock, none of which is
  among them: the digest function, the commit codec (\<open>deserialize\<close> gives \<open>None\<close> where
  \<^verbatim>\<open>CommitNode::deserialize\<close> throws) and the time a new commit is stamped with.
\<close>

record env =
  calculateHash :: "string \<Rightarrow> string"
  serialize :: "CommitNode \<Rightarrow> string"
  deserialize :: "string \<Rightarrow> CommitNode option"
  now :: string

text \<open>
  Modelled from the spec: the constructor \<^verbatim>\<open>CommitNode(message, parents, files)\<close> of
  \<^verbatim>\<open>Commit.h\<close> (not among the sources); the timestamp is set at construction.
\<close>

definition CommitNode_new ::
  "env \<Rightarrow> string \<Rightarrow> string list \<Rightarrow> (string \<times> string) list \<Rightarrow> CommitNode" where
  "CommitNode_new E msg parents blobs =
     \<lparr>message = msg, timestamp = now E, parentHashes = parents, fileBlobs = blobs\<rparr>"

text \<open>
  Modelled from the spec: the default constructor \<^verbatim>\<open>CommitNode()\<close> of \<^verbatim>\<open>Commit.h\<close> (not
  among the sources), the empty synthetic commit with no parents and no files.
\<close>

definition CommitNode_default :: CommitNode where
  "CommitNode_default = \<lparr>message = [], timestamp = [], parentHashes = [], fileBlobs = []\<rparr>"

text \<open>
  Modelled from the spec: \<^verbatim>\<open>CommitNode::getHash\<close> of \<^verbatim>\<open>Commit.h\<close> (not among the sources);
  the digest of a commit is the hash of its serialized form.
\<close>

definition getHash :: "env \<Rightarrow> CommitNode \<Rightarrow> string" where
  "getHash E c = calculateHash E (serialize E c)"

section \<open>The repository layout and the helper methods\<close>

definition MINIGIT_DIR :: string where "MINIGIT_DIR = ''.minigit''"
definition OBJECTS_DIR :: string where "OBJECTS_DIR = MINIGIT_DIR @ ''/objects''"
definition REFS_DIR :: string where "REFS_DIR = MINIGIT_DIR @ ''/refs''"
definition HEAD_FILE :: string where "HEAD_FILE = REFS_DIR @ ''/HEAD''"
definition HEADS_DIR :: string where "HEADS_DIR = REFS_DIR @ ''/heads''"
definition INDEX_FILE :: string where "INDEX_FILE = MINIGIT_DIR @ ''/index''"

lemmas layout_defs =
  MINIGIT_DIR_def OBJECTS_DIR_def REFS_DIR_def HEAD_FILE_def HEADS_DIR_def INDEX_FILE_def

text \<open>
  Every \<^verbatim>\<open>throw runtime_error(msg)\<close> of the sources is \<open>runtime_error msg\<close>;
  \<open>corrupt_commit\<close> is whatever \<^verbatim>\<open>CommitNode::deserialize\<close> throws on a malformed record.
  An operation returns its result or error together with the state it leaves behind:
  an exception does not undo the writes made before it. What the commands print to
  \<^verbatim>\<open>cout\<close> is left out, except for \<^verbatim>\<open>printDiff\<close>; where a command has several normal
  ends, an outcome value says which one was taken.
\<close>

datatype error = runtime_error string | corrupt_commit

text \<open>
  The \<^verbatim>\<open>MiniGit\<close> object: its one member, and the file system of the process.
\<close>

record MiniGit =
  stagingArea :: "(string \<times> string) list"
  disk :: storage

definition getHeadCommitHash :: "storage \<Rightarrow> string" where
  "getHeadCommitHash st =
     (case readFromFile st HEAD_FILE of
        None \<Rightarrow> []
      | Some headContent \<Rightarrow>
          if take 5 headContent = ''ref: '' then
            (let refPath = drop 5 headContent;
                 refFilePath = MINIGIT_DIR @ ''/'' @ refPath
             in case readFromFile st refFilePath of None \<Rightarrow> [] | Some commitHash \<Rightarrow> commitHash)
          else headContent)"

definition updateHead :: "storage \<Rightarrow> string \<Rightarrow> bool \<Rightarrow> string \<Rightarrow> (error + unit) \<times> storage" where
  "updateHead st commitHash isBranch branchName =
     (if isBranch then
        (let branchPath = HEADS_DIR @ ''/'' @ branchName;
             (ok1, st1) = writeToFile st branchPath commitHash
         in if \<not> ok1 then (Inl (runtime_error ''Failed to update branch''), st1)
            else
              (let (ok2, st2) = writeToFile st1 HEAD_FILE (''ref: refs/heads/'' @ branchName)
               in if \<not> ok2 then (Inl (runtime_error ''Failed to update HEAD''), st2)
                  else (Inr (), st2)))
      else
        (let (ok, st1) = writeToFile st HEAD_FILE commitHash
         in if \<not> ok then (Inl (runtime_error ''Failed to update HEAD''), st1)
            else (Inr (), st1)))"

definition loadCommit :: "env \<Rightarrow> storage \<Rightarrow> string \<Rightarrow> error + CommitNode" where
  "loadCommit E st commitHash =
     (case readFromFile st (OBJECTS_DIR @ ''/'' @ commitHash) of
        None \<Rightarrow> Inl (runtime_error (''Commit not found: '' @ commitHash))
      | Some content \<Rightarrow>
          (case deserialize E content of None \<Rightarrow> Inl corrupt_commit | Some c \<Rightarrow> Inr c))"

definition getBlobContent :: "storage \<Rightarrow> string \<Rightarrow> error + string" where
  "getBlobContent st blobHash =
     (case readFromFile st (OBJECTS_DIR @ ''/'' @ blobHash) of
        None \<Rightarrow> Inl (runtime_error (''Blob not found: '' @ blobHash))
      | Some content \<Rightarrow> Inr content)"

text \<open>\<^verbatim>\<open>line.find(' ')\<close>: the position of the first occurrence, \<open>None\<close> for \<^verbatim>\<open>npos\<close>.\<close>

fun find_char :: "char \<Rightarrow> string \<Rightarrow> nat option" where
  "find_char c [] = None"
| "find_char c (x # xs) = (if x = c then Some 0 else map_option Suc (find_char c xs))"

definition loadIndex_line :: "(string \<times> string) list \<Rightarrow> string \<Rightarrow> (string \<times> string) list" where
  "loadIndex_line staging line =
     (case find_char (CHR '' '') line of
        None \<Rightarrow> staging
      | Some space \<Rightarrow> AList.update (take space line) (drop (space + 1) line) staging)"

text \<open>\<^verbatim>\<open>loadIndex\<close> returns the staging area it leaves in the object.\<close>

definition loadIndex :: "storage \<Rightarrow> (string \<times> string) list" where
  "loadIndex st =
     (case readFromFile st INDEX_FILE of
        None \<Rightarrow> []
      | Some content \<Rightarrow> foldl loadIndex_line [] (getlines content))"

definition saveIndex :: "storage \<Rightarrow> (string \<times> string) list \<Rightarrow> (error + unit) \<times> storage" where
  "saveIndex st staging =
     (let ss = concat (map (\<lambda>(file, hash). file @ '' '' @ hash @ [CHR 0x0A]) staging);
          (ok, st1) = writeToFile st INDEX_FILE ss
      in if \<not> ok then (Inl (runtime_error ''Failed to save index''), st1)
         else (Inr (), st1))"

text \<open>The constructor, run at the start of every invocation of the program.\<close>

definition MiniGit_new :: "storage \<Rightarrow> MiniGit" where
  "MiniGit_new st =
     \<lparr>stagingArea = (if directoryExists st MINIGIT_DIR then loadIndex st else []), disk = st\<rparr>"

section \<open>The core commands\<close>

definition add :: "env \<Rightarrow> MiniGit \<Rightarrow> string \<Rightarrow> (error + unit) \<times> MiniGit" where
  "add E g filename =
     (if \<not> fileExists (disk g) filename then
        (Inl (runtime_error (''File not found: '' @ filename)), g)
      else
        (case readFromFile (disk g) filename of
           None \<Rightarrow> (Inl (runtime_error (''Failed to read file: '' @ filename)), g)
         | Some content \<Rightarrow>
             (let hash = calculateHash E content;
                  blobPath = OBJECTS_DIR @ ''/'' @ hash;
                  (ok, st1) = (if \<not> fileExists (disk g) blobPath
                               then writeToFile (disk g) blobPath content
                               else (True, disk g))
              in if \<not> ok then (Inl (runtime_error ''Failed to store blob''), g\<lparr>disk := st1\<rparr>)
                 else
                   (let staging = AList.update filename hash (stagingArea g)
                    in case saveIndex st1 staging of
                         (Inl e, st2) \<Rightarrow> (Inl e, \<lparr>stagingArea = staging, disk = st2\<rparr>)
                       | (Inr u, st2) \<Rightarrow> (Inr (), \<lparr>stagingArea = staging, disk = st2\<rparr>)))))"

datatype commit_outcome = Nothing_to_commit | Committed string

definition commit :: "env \<Rightarrow> MiniGit \<Rightarrow> string \<Rightarrow> (error + commit_outcome) \<times> MiniGit" where
  "commit E g msg =
     (if stagingArea g = [] then (Inr Nothing_to_commit, g)
      else
        (let parentHash = getHeadCommitHash (disk g);
             parents = (if parentHash \<noteq> [] then [parentHash] else []);
             c = CommitNode_new E msg parents (stagingArea g);
             commitPath = OBJECTS_DIR @ ''/'' @ getHash E c;
             (ok, st1) = writeToFile (disk g) commitPath (serialize E c)
         in if \<not> ok then (Inl (runtime_error ''Failed to store commit''), g\<lparr>disk := st1\<rparr>)
            else
              (case updateHead st1 (getHash E c) True ''master'' of
                 (Inl e, st2) \<Rightarrow> (Inl e, g\<lparr>disk := st2\<rparr>)
               | (Inr u, st2) \<Rightarrow>
                   (case saveIndex st2 [] of
                      (Inl e, st3) \<Rightarrow> (Inl e, \<lparr>stagingArea = [], disk = st3\<rparr>)
                    | (Inr u, st3) \<Rightarrow>
                        (Inr (Committed (getHash E c)), \<lparr>stagingArea = [], disk = st3\<rparr>)))))"

text \<open>
  The loop of \<^verbatim>\<open>checkout\<close> over the commit's files; the result of \<^verbatim>\<open>writeToFile\<close> is
  ignored there.
\<close>

fun checkout_files :: "storage \<Rightarrow> (string \<times> string) list \<Rightarrow> (error + unit) \<times> storage" where
  "checkout_files st [] = (Inr (), st)"
| "checkout_files st ((file, hash) # rest) =
     (case getBlobContent st hash of
        Inl e \<Rightarrow> (Inl e, st)
      | Inr content \<Rightarrow> checkout_files (snd (writeToFile st file content)) rest)"

definition checkout :: "env \<Rightarrow> MiniGit \<Rightarrow> string \<Rightarrow> (error + unit) \<times> MiniGit" where
  "checkout E g target =
     (let branchPath = HEADS_DIR @ ''/'' @ target;
          resolved =
            (if fileExists (disk g) branchPath then
               (case readFromFile (disk g) branchPath of
                  None \<Rightarrow> Inl (runtime_error ''Failed to read branch'')
                | Some targetHash \<Rightarrow> Inr (targetHash, True))
             else
               (case loadCommit E (disk g) target of
                  Inl e \<Rightarrow> Inl (runtime_error (''Invalid branch or commit: '' @ target))
                | Inr c \<Rightarrow> Inr (target, False)))
      in case resolved of
           Inl e \<Rightarrow> (Inl e, g)
         | Inr (targetHash, isBranch) \<Rightarrow>
             (case loadCommit E (disk g) targetHash of
                Inl e \<Rightarrow> (Inl e, g)
              | Inr c \<Rightarrow>
                  (case checkout_files (disk g) (fileBlobs c) of
                     (Inl e, st1) \<Rightarrow> (Inl e, g\<lparr>disk := st1\<rparr>)
                   | (Inr u, st1) \<Rightarrow>
                       (case updateHead st1 targetHash isBranch (if isBranch then target else []) of
                          (Inl e, st2) \<Rightarrow> (Inl e, g\<lparr>disk := st2\<rparr>)
                        | (Inr u, st2) \<Rightarrow> (Inr (), \<lparr>stagingArea = [], disk = st2\<rparr>)))))"

section \<open>The ancestor search\<close>

text \<open>
  \<^verbatim>\<open>try { CommitNode commit = loadCommit(current); for (parent : commit.getParentHashes()) ... } catch (...) {}\<close>:
  the parents the loop runs over; a commit that cannot be loaded gives none.
\<close>

definition try_parents :: "env \<Rightarrow> storage \<Rightarrow> string \<Rightarrow> string list" where
  "try_parents E st current =
     (case loadCommit E st current of Inl e \<Rightarrow> [] | Inr c \<Rightarrow> parentHashes c)"

text \<open>
  The \<^verbatim>\<open>for\<close> loop over the parents: a parent not yet visited on this side is recorded
  one level deeper and pushed to the back of the queue. \<^verbatim>\<open>map<string, int>\<close> is a map to
  \<open>int\<close>; the depth is bounded by the number of commits and never wraps.
\<close>

fun push_parents ::
  "string list \<Rightarrow> int \<Rightarrow> (string \<rightharpoonup> int) \<Rightarrow> (string \<times> int) list
     \<Rightarrow> (string \<rightharpoonup> int) \<times> (string \<times> int) list" where
  "push_parents [] depth visited q = (visited, q)"
| "push_parents (parent # rest) depth visited q =
     (if visited parent = None
      then push_parents rest depth (visited(parent \<mapsto> depth + 1)) (q @ [(parent, depth + 1)])
      else push_parents rest depth visited q)"

text \<open>
  One side's block of the \<^verbatim>\<open>while\<close> body. The two blocks of the source are the same code
  with the sides exchanged: \<open>other\<close> is the other side's visited map. \<open>Inl\<close> is the
  \<^verbatim>\<open>return current\<close>.
\<close>

definition findLCA_side ::
  "env \<Rightarrow> storage \<Rightarrow> (string \<rightharpoonup> int) \<Rightarrow> (string \<rightharpoonup> int) \<Rightarrow> (string \<times> int) list
     \<Rightarrow> string + (string \<rightharpoonup> int) \<times> (string \<times> int) list" where
  "findLCA_side E st other visited q =
     (case q of
        [] \<Rightarrow> Inr (visited, q)
      | (current, depth) # rest \<Rightarrow>
          if other current \<noteq> None then Inl current
          else Inr (push_parents (try_parents E st current) depth visited rest))"

text \<open>
  Termination of the search: every digest that can be pushed is a parent named by some
  stored commit, there are finitely many of them, and a side pushes each at most once.
\<close>

definition all_parents :: "env \<Rightarrow> storage \<Rightarrow> string set" where
  "all_parents E st =
     (\<Union>content \<in> fmran' (files st).
        case deserialize E content of None \<Rightarrow> {} | Some c \<Rightarrow> set (parentHashes c))"

definition side_measure :: "string set \<Rightarrow> (string \<rightharpoonup> int) \<Rightarrow> (string \<times> int) list \<Rightarrow> nat" where
  "side_measure U visited q = 2 * card (U - dom visited) + length q"

lemma finite_all_parents: "finite (all_parents E st)"
proof -
  have "finite (fmran' (files st))"
    by (simp add: fmran'_alt_def)
  moreover have "finite (case deserialize E content of None \<Rightarrow> {} | Some c \<Rightarrow> set (parentHashes c))"
    for content
    by (cases "deserialize E content") simp_all
  ultimately show ?thesis
    unfolding all_parents_def by (rule finite_UN_I)
qed

lemma try_parents_subset: "set (try_parents E st h) \<subseteq> all_parents E st"
proof (cases "loadCommit E st h")
  case (Inl e)
  then show ?thesis by (simp add: try_parents_def)
next
  case (Inr c)
  then obtain content where
    rd: "fmlookup (files st) (OBJECTS_DIR @ ''/'' @ h) = Some content"
    and de: "deserialize E content = Some c"
    by (auto simp: loadCommit_def readFromFile_def split: option.splits)
  from rd have "content \<in> fmran' (files st)"
    by (rule fmran'I)
  with de have "set (parentHashes c) \<subseteq> all_parents E st"
    unfolding all_parents_def by force
  with Inr show ?thesis by (simp add: try_parents_def)
qed

lemma side_measure_push:
  assumes "finite U" "parent \<in> U" "visited parent = None"
  shows "side_measure U (visited(parent \<mapsto> d)) (q @ [x]) < side_measure U visited q"
proof -
  have eq: "U - dom (visited(parent \<mapsto> d)) = (U - dom visited) - {parent}"
    by auto
  have mem: "parent \<in> U - dom visited"
    using assms by auto
  have fin: "finite (U - dom visited)"
    using assms by simp
  have "card ((U - dom visited) - {parent}) < card (U - dom visited)"
    using fin mem by (rule card_Diff1_less)
  then have "2 * card (U - dom (visited(parent \<mapsto> d))) + 2 \<le> 2 * card (U - dom visited)"
    unfolding eq by arith
  then show ?thesis
    unfolding side_measure_def by simp
qed

lemma push_parents_measure:
  "finite U \<Longrightarrow> set ps \<subseteq> U \<Longrightarrow> push_parents ps d v q = (v', q')
     \<Longrightarrow> side_measure U v' q' \<le> side_measure U v q"
proof (induction ps d v q rule: push_parents.induct)
  case (1 depth visited q)
  then show ?case by simp
next
  case (2 parent rest depth visited q)
  from "2.prems" have inU: "parent \<in> U" and restU: "set rest \<subseteq> U"
    by simp_all
  show ?case
  proof (cases "visited parent = None")
    case True
    with "2.prems"(3)
    have run: "push_parents rest depth (visited(parent \<mapsto> depth + 1)) (q @ [(parent, depth + 1)]) = (v', q')"
      by simp
    have "side_measure U v' q'
            \<le> side_measure U (visited(parent \<mapsto> depth + 1)) (q @ [(parent, depth + 1)])"
      by (rule "2.IH"(1)[OF True "2.prems"(1) restU run])
    also have "\<dots> < side_measure U visited q"
      using "2.prems"(1) inU True by (rule side_measure_push)
    finally show ?thesis by simp
  next
    case False
    with "2.prems"(3) have run: "push_parents rest depth visited q = (v', q')"
      by simp
    show ?thesis
      by (rule "2.IH"(2)[OF False "2.prems"(1) restU run])
  qed
qed

lemma findLCA_side_measure:
  assumes "findLCA_side E st other visited q = Inr (visited', q')"
  shows "side_measure (all_parents E st) visited' q' \<le> side_measure (all_parents E st) visited q"
    and "q \<noteq> [] \<Longrightarrow>
         side_measure (all_parents E st) visited' q' < side_measure (all_parents E st) visited q"
proof -
  show "side_measure (all_parents E st) visited' q' \<le> side_measure (all_parents E st) visited q"
  proof (cases q)
    case Nil
    with assms show ?thesis by (simp add: findLCA_side_def)
  next
    case (Cons x rest)
    obtain current depth where x: "x = (current, depth)" by (cases x)
    from assms Cons x
    have run: "push_parents (try_parents E st current) depth visited rest = (visited', q')"
      by (simp add: findLCA_side_def split: if_splits)
    have "side_measure (all_parents E st) visited' q' \<le> side_measure (all_parents E st) visited rest"
      by (rule push_parents_measure[OF finite_all_parents try_parents_subset run])
    then show ?thesis using Cons by (simp add: side_measure_def)
  qed
  show "side_measure (all_parents E st) visited' q' < side_measure (all_parents E st) visited q"
    if "q \<noteq> []"
  proof (cases q)
    case Nil
    with that show ?thesis by simp
  next
    case (Cons x rest)
    obtain current depth where x: "x = (current, depth)" by (cases x)
    from assms Cons x
    have run: "push_parents (try_parents E st current) depth visited rest = (visited', q')"
      by (simp add: findLCA_side_def split: if_splits)
    have "side_measure (all_parents E st) visited' q' \<le> side_measure (all_parents E st) visited rest"
      by (rule push_parents_measure[OF finite_all_parents try_parents_subset run])
    then show ?thesis using Cons by (simp add: side_measure_def)
  qed
qed

function findLCA_loop ::
  "env \<Rightarrow> storage \<Rightarrow> (string \<rightharpoonup> int) \<Rightarrow> (string \<rightharpoonup> int)
     \<Rightarrow> (string \<times> int) list \<Rightarrow> (string \<times> int) list \<Rightarrow> string" where
  "findLCA_loop E st visited1 visited2 q1 q2 =
     (if q1 \<noteq> [] \<or> q2 \<noteq> [] then
        (case findLCA_side E st visited2 visited1 q1 of
           Inl current \<Rightarrow> current
         | Inr (visited1', q1') \<Rightarrow>
             (case findLCA_side E st visited1' visited2 q2 of
                Inl current \<Rightarrow> current
              | Inr (visited2', q2') \<Rightarrow> findLCA_loop E st visited1' visited2' q1' q2'))
      else [])"
  by pat_completeness auto
termination
proof (relation "measure (\<lambda>(E, st, visited1, visited2, q1, q2).
    side_measure (all_parents E st) visited1 q1 + side_measure (all_parents E st) visited2 q2)",
    goal_cases)
  case 1
  show ?case by simp
next
  case (2 E st visited1 visited2 q1 q2 x2 v1' q1' x2a v2' q2')
  then have s1: "findLCA_side E st visited2 visited1 q1 = Inr (v1', q1')"
    and s2: "findLCA_side E st v1' visited2 q2 = Inr (v2', q2')"
    by simp_all
  from 2(1) show ?case
  proof
    assume "q1 \<noteq> []"
    with findLCA_side_measure(2)[OF s1] findLCA_side_measure(1)[OF s2] show ?thesis
      by simp
  next
    assume "q2 \<noteq> []"
    with findLCA_side_measure(1)[OF s1] findLCA_side_measure(2)[OF s2] show ?thesis
      by simp
  qed
qed

declare findLCA_loop.simps [simp del]

definition findLCA :: "env \<Rightarrow> storage \<Rightarrow> string \<Rightarrow> string \<Rightarrow> string" where
  "findLCA E st commitHash1 commitHash2 =
     findLCA_loop E st [commitHash1 \<mapsto> 0] [commitHash2 \<mapsto> 0] [(commitHash1, 0)] [(commitHash2, 0)]"

section \<open>Merge\<close>

datatype merge_outcome = AlreadyUpToDate | Conflicted | Merged string

text \<open>\<^verbatim>\<open>m.count(file) ? m.at(file) : ""\<close>\<close>

definition blob_or_empty :: "(string \<times> string) list \<Rightarrow> string \<Rightarrow> string" where
  "blob_or_empty m file = (case map_of m file of None \<Rightarrow> [] | Some blob \<Rightarrow> blob)"

text \<open>
  The body of the loop over \<^verbatim>\<open>allFiles\<close>, with the source's four tests in the source's
  order. It returns the new \<^verbatim>\<open>conflictsExist\<close> and \<^verbatim>\<open>mergedFiles\<close>, or the exception, and
  the file system it leaves. \<^verbatim>\<open>getBlobContent\<close> is evaluated before the write it feeds,
  so an exception leaves the file system as the iteration found it.
\<close>

definition merge_file ::
  "storage \<Rightarrow> string \<Rightarrow> (string \<times> string) list \<Rightarrow> (string \<times> string) list \<Rightarrow> string
     \<Rightarrow> bool \<Rightarrow> (string \<times> string) list
     \<Rightarrow> (error + bool \<times> (string \<times> string) list) \<times> storage" where
  "merge_file st branchName lcaFiles targetFiles file conflictsExist mergedFiles =
     (let lcaBlob = blob_or_empty lcaFiles file;
          currentBlob = blob_or_empty mergedFiles file;
          targetBlob = blob_or_empty targetFiles file
      in
        if lcaBlob = [] \<and> currentBlob = [] then
          (case getBlobContent st targetBlob of
             Inl e \<Rightarrow> (Inl e, st)
           | Inr content \<Rightarrow>
               (Inr (conflictsExist, AList.update file targetBlob mergedFiles),
                snd (writeToFile st file content)))
        else if lcaBlob \<noteq> [] \<and> currentBlob = lcaBlob \<and> targetBlob \<noteq> lcaBlob then
          (case getBlobContent st targetBlob of
             Inl e \<Rightarrow> (Inl e, st)
           | Inr content \<Rightarrow>
               (Inr (conflictsExist, AList.update file targetBlob mergedFiles),
                snd (writeToFile st file content)))
        else if lcaBlob \<noteq> [] \<and> currentBlob \<noteq> lcaBlob \<and> targetBlob \<noteq> lcaBlob
                \<and> currentBlob \<noteq> targetBlob then
          (case getBlobContent st currentBlob of
             Inl e \<Rightarrow> (Inl e, st)
           | Inr currentContent \<Rightarrow>
               (case getBlobContent st targetBlob of
                  Inl e \<Rightarrow> (Inl e, st)
                | Inr targetContent \<Rightarrow>
                    (let conflictContent =
                           ''<<<<<<< HEAD'' @ [CHR 0x0A] @ currentContent
                           @ ''======='' @ [CHR 0x0A] @ targetContent
                           @ ''>>>>>>> '' @ branchName @ [CHR 0x0A]
                     in (Inr (True, mergedFiles), snd (writeToFile st file conflictContent)))))
        else if lcaBlob \<noteq> [] \<and> currentBlob \<noteq> [] \<and> targetBlob = [] then
          (if lcaBlob = currentBlob
           then (Inr (conflictsExist, AList.delete file mergedFiles), fs_remove st file)
           else (Inr (True, mergedFiles), st))
        else (Inr (conflictsExist, mergedFiles), st))"

fun merge_files ::
  "storage \<Rightarrow> string \<Rightarrow> (string \<times> string) list \<Rightarrow> (string \<times> string) list \<Rightarrow> string list
     \<Rightarrow> bool \<Rightarrow> (string \<times> string) list
     \<Rightarrow> (error + bool \<times> (string \<times> string) list) \<times> storage" where
  "merge_files st branchName lcaFiles targetFiles [] conflictsExist mergedFiles =
     (Inr (conflictsExist, mergedFiles), st)"
| "merge_files st branchName lcaFiles targetFiles (file # rest) conflictsExist mergedFiles =
     (case merge_file st branchName lcaFiles targetFiles file conflictsExist mergedFiles of
        (Inl e, st1) \<Rightarrow> (Inl e, st1)
      | (Inr (conflictsExist1, mergedFiles1), st1) \<Rightarrow>
          merge_files st1 branchName lcaFiles targetFiles rest conflictsExist1 mergedFiles1)"

text \<open>
  \<^verbatim>\<open>set<string> allFiles\<close> filled from the three maps: the paths without repetition, in
  the ascending order in which the loop visits them.
\<close>

definition allFiles ::
  "(string \<times> string) list \<Rightarrow> (string \<times> string) list \<Rightarrow> (string \<times> string) list \<Rightarrow> string list" where
  "allFiles mergedFiles targetFiles lcaFiles =
     sort (remdups (map fst mergedFiles @ map fst targetFiles @ map fst lcaFiles))"

definition merge :: "env \<Rightarrow> MiniGit \<Rightarrow> string \<Rightarrow> (error + merge_outcome) \<times> MiniGit" where
  "merge E g branchName =
     (let currentHash = getHeadCommitHash (disk g) in
      if currentHash = [] then (Inl (runtime_error ''No commits to merge from''), g)
      else
        (case readFromFile (disk g) (HEADS_DIR @ ''/'' @ branchName) of
           None \<Rightarrow> (Inl (runtime_error (''Branch not found: '' @ branchName)), g)
         | Some targetHash \<Rightarrow>
             if currentHash = targetHash then (Inr AlreadyUpToDate, g)
             else
               (let lcaHash = findLCA E (disk g) currentHash targetHash in
                case loadCommit E (disk g) currentHash of
                  Inl e \<Rightarrow> (Inl e, g)
                | Inr currentCommit \<Rightarrow>
                (case loadCommit E (disk g) targetHash of
                  Inl e \<Rightarrow> (Inl e, g)
                | Inr targetCommit \<Rightarrow>
                (case (if lcaHash = [] then Inr CommitNode_default
                       else loadCommit E (disk g) lcaHash) of
                  Inl e \<Rightarrow> (Inl e, g)
                | Inr lcaCommit \<Rightarrow>
                    (let mergedFiles = fileBlobs currentCommit;
                         lcaFiles = fileBlobs lcaCommit;
                         targetFiles = fileBlobs targetCommit
                     in case merge_files (disk g) branchName lcaFiles targetFiles
                               (allFiles mergedFiles targetFiles lcaFiles) False mergedFiles of
                          (Inl e, st1) \<Rightarrow> (Inl e, g\<lparr>disk := st1\<rparr>)
                        | (Inr (conflictsExist, mergedFiles1), st1) \<Rightarrow>
                            if conflictsExist then (Inr Conflicted, g\<lparr>disk := st1\<rparr>)
                            else
                              (let parents = [currentHash, targetHash];
                                   mergeCommit =
                                     CommitNode_new E
                                       (''Merge branch '' @ [CHR 0x27] @ branchName @ [CHR 0x27])
                                       parents mergedFiles1;
                                   commitPath = OBJECTS_DIR @ ''/'' @ getHash E mergeCommit;
                                   (ok, st2) = writeToFile st1 commitPath (serialize E mergeCommit)
                               in if \<not> ok then
                                    (Inl (runtime_error ''Failed to create merge commit''),
                                     g\<lparr>disk := st2\<rparr>)
                                  else
                                    (case updateHead st2 (getHash E mergeCommit) True ''master'' of
                                       (Inl e, st3) \<Rightarrow> (Inl e, g\<lparr>disk := st3\<rparr>)
                                     | (Inr u, st3) \<Rightarrow>
                                         (Inr (Merged (getHash E mergeCommit)),
                                          g\<lparr>disk := st3\<rparr>)))))))))"

section \<open>Notions used in the statements\<close>

text \<open>The object store: what is kept under a digest.\<close>

definition objects :: "storage \<Rightarrow> string \<Rightarrow> string option" where
  "objects st digest = readFromFile st (OBJECTS_DIR @ ''/'' @ digest)"

text \<open>
  The data-model invariant of the store: every object is kept under the digest of its
  own content.
\<close>

definition content_addressed :: "env \<Rightarrow> storage \<Rightarrow> bool" where
  "content_addressed E st =
     (\<forall>digest content. readFromFile st (OBJECTS_DIR @ ''/'' @ digest) = Some content
        \<longrightarrow> calculateHash E content = digest)"

text \<open>
  \<open>ancestor E st start h\<close>: the digest \<open>h\<close> is \<open>start\<close> or is reached from it along the
  parent links of the commits that can be loaded from the store.
\<close>

inductive ancestor :: "env \<Rightarrow> storage \<Rightarrow> string \<Rightarrow> string \<Rightarrow> bool"
  for E :: env and st :: storage and start :: string where
  ancestor_self: "ancestor E st start start"
| ancestor_parent:
    "ancestor E st start h \<Longrightarrow> parent \<in> set (try_parents E st h) \<Longrightarrow> ancestor E st start parent"

code_pred ancestor .

text \<open>
  The invariant of one side of the search: whatever it has visited or queued is an
  ancestor of the digest the side started from.
\<close>

definition side_reached :: "env \<Rightarrow> storage \<Rightarrow> string \<Rightarrow> (string \<rightharpoonup> int) \<Rightarrow> (string \<times> int) list \<Rightarrow> bool" where
  "side_reached E st start visited q =
     ((\<forall>h \<in> dom visited. ancestor E st start h) \<and> (\<forall>h \<in> fst ` set q. ancestor E st start h))"

text \<open>
  A path is classified as a conflict when the loop's content-conflict test or its
  delete/modify test holds of the three blobs (the empty string for an absent path).
\<close>

definition classified_conflict :: "string \<Rightarrow> string \<Rightarrow> string \<Rightarrow> bool" where
  "classified_conflict lcaBlob currentBlob targetBlob =
     ((lcaBlob \<noteq> [] \<and> currentBlob \<noteq> lcaBlob \<and> targetBlob \<noteq> lcaBlob \<and> currentBlob \<noteq> targetBlob)
      \<or> (lcaBlob \<noteq> [] \<and> currentBlob \<noteq> [] \<and> targetBlob = [] \<and> lcaBlob \<noteq> currentBlob))"

text \<open>A path below the repository's metadata directory.\<close>

definition inside_repo :: "string \<Rightarrow> bool" where
  "inside_repo path = (take (length MINIGIT_DIR + 1) path = MINIGIT_DIR @ ''/'')"

section \<open>A small repository for concrete runs\<close>

text \<open>
  A digest function and a commit codec to run the commands on: the digest of a content
  is the content behind a \<open>#\<close>, a commit is serialized as its message, and seven
  stored commits can be read back: the root \<open>A\<close>, its four children \<open>D\<close> (no change),
  \<open>T\<close> and \<open>C\<close> (file \<open>f\<close> changed, differently) and \<open>R\<close> (file \<open>f\<close> deleted), \<open>E\<close>, a
  child of \<open>D\<close>, and \<open>O\<close>, whose parent \<open>#gone\<close> is not in the store.
\<close>

definition demo_env :: env where
  "demo_env =
     \<lparr>calculateHash = (\<lambda>content. ''#'' @ content),
      serialize = message,
      deserialize = map_of
        [(''A'', \<lparr>message = ''A'', timestamp = ''t0'', parentHashes = [],
                  fileBlobs = [(''f'', ''#X'')]\<rparr>),
         (''D'', \<lparr>message = ''D'', timestamp = ''t1'', parentHashes = [''#A''],
                  fileBlobs = [(''f'', ''#X'')]\<rparr>),
         (''T'', \<lparr>message = ''T'', timestamp = ''t2'', parentHashes = [''#A''],
                  fileBlobs = [(''f'', ''#Y'')]\<rparr>),
         (''R'', \<lparr>message = ''R'', timestamp = ''t3'', parentHashes = [''#A''],
                  fileBlobs = []\<rparr>),
         (''E'', \<lparr>message = ''E'', timestamp = ''t4'', parentHashes = [''#D''],
                  fileBlobs = [(''f'', ''#X'')]\<rparr>),
         (''O'', \<lparr>message = ''O'', timestamp = ''t5'', parentHashes = [''#gone''],
                  fileBlobs = []\<rparr>),
         (''C'', \<lparr>message = ''C'', timestamp = ''t6'', parentHashes = [''#A''],
                  fileBlobs = [(''f'', ''#Z'')]\<rparr>)],
      now = ''t9''\<rparr>"

text \<open>
  The repository on disk, with \<^verbatim>\<open>HEAD\<close> pointing at the branch given: branches \<open>master\<close>,
  \<open>dev\<close>, \<open>topic\<close>, \<open>prune\<close> and \<open>clash\<close> at the commits \<open>A\<close>, \<open>D\<close>, \<open>T\<close>, \<open>R\<close> and \<open>C\<close>,
  the blobs \<open>X\<close>, \<open>Y\<close> and \<open>Z\<close>, an index that stages \<open>g\<close>, and four working files.
\<close>

definition demo_disk :: "string \<Rightarrow> storage" where
  "demo_disk head =
     \<lparr>files = fmap_of_list
        [(''.minigit/refs/HEAD'', ''ref: refs/heads/'' @ head),
         (''.minigit/refs/heads/master'', ''#A''),
         (''.minigit/refs/heads/dev'', ''#D''),
         (''.minigit/refs/heads/topic'', ''#T''),
         (''.minigit/refs/heads/prune'', ''#R''),
         (''.minigit/refs/heads/clash'', ''#C''),
         (''.minigit/objects/#A'', ''A''),
         (''.minigit/objects/#D'', ''D''),
         (''.minigit/objects/#T'', ''T''),
         (''.minigit/objects/#R'', ''R''),
         (''.minigit/objects/#E'', ''E''),
         (''.minigit/objects/#O'', ''O''),
         (''.minigit/objects/#C'', ''C''),
         (''.minigit/objects/#X'', ''X''),
         (''.minigit/objects/#Y'', ''Y''),
         (''.minigit/objects/#Z'', ''Z''),
         (''.minigit/index'', ''g #X'' @ [CHR 0x0A]),
         (''f'', ''X''),
         (''g'', ''X''),
         (''n'', ''N''),
         (''n2'', ''N'')],
      dirs = {''.minigit'', ''.minigit/objects'', ''.minigit/refs'', ''.minigit/refs/heads''},
      writable = (\<lambda>path. True)\<rparr>"

section \<open>Properties of the diff printer\<close>

lemma render_lines_Nil: "render_lines [] = []"
  by (simp add: render_lines_def)

lemma render_lines_Cons: "render_lines (t # ts) = render_line t @ render_lines ts"
  by (simp add: render_lines_def)

lemma printDiff_loop_walk:
  "printDiff_loop oldLines newLines i j =
     render_lines (diffLines (drop i oldLines) (drop j newLines))"
proof (induction oldLines newLines i j rule: printDiff_loop.induct)
  case (1 oldLines newLines i j)
  show ?case
  proof (cases "i < length oldLines")
    case old_in: True
    then have dropo: "drop i oldLines = oldLines ! i # drop (Suc i) oldLines"
      by (simp add: Cons_nth_drop_Suc)
    show ?thesis
    proof (cases "j < length newLines")
      case new_in: True
      then have dropn: "drop j newLines = newLines ! j # drop (Suc j) newLines"
        by (simp add: Cons_nth_drop_Suc)
      show ?thesis
      proof (cases "oldLines ! i = newLines ! j")
        case True
        with old_in new_in "1.IH"(1) show ?thesis
          by (subst printDiff_loop.simps)
            (simp add: dropo dropn render_lines_Cons)
      next
        case False
        with old_in new_in "1.IH"(2) show ?thesis
          by (subst printDiff_loop.simps)
            (simp add: dropo dropn render_lines_Cons)
      qed
    next
      case new_out: False
      with old_in "1.IH"(2) show ?thesis
        by (subst printDiff_loop.simps)
          (simp add: dropo render_lines_Cons)
    qed
  next
    case old_out: False
    show ?thesis
    proof (cases "j < length newLines")
      case new_in: True
      then have dropn: "drop j newLines = newLines ! j # drop (Suc j) newLines"
        by (simp add: Cons_nth_drop_Suc)
      from old_out new_in "1.IH"(2) show ?thesis
        by (subst printDiff_loop.simps)
          (simp add: dropn render_lines_Cons)
    next
      case False
      with old_out show ?thesis
        by (subst printDiff_loop.simps) (simp add: render_lines_Nil)
    qed
  qed
qed

text \<open>
  C5. For every pair of old and new contents, the text that \<^verbatim>\<open>printDiff\<close> prints is the
  rendering of the reference walk over the two line-split texts: after the two header
  lines (present exactly when a filename is supplied) comes one line per step of the
  walk, tagged as context, removed or added, and then the blank line that closes the
  report.
\<close>

theorem printDiff_is_reference_walk:
  "printDiff oldContent newContent filename =
     concat (map (\<lambda>l. l @ [CHR 0x0A]) (diff_header filename))
     @ render_lines (diffLines (getlines oldContent) (getlines newContent))
     @ [CHR 0x0A]"
  by (simp add: printDiff_def diff_header_def printDiff_loop_walk)

theorem printDiff_is_reference_walk_witness:
  "diffLines [''a'', ''b'', ''c''] [''x'', ''a'', ''b'', ''c'']
     = [Removed_line ''a'', Added_line ''x'', Removed_line ''b'', Added_line ''a'',
        Removed_line ''c'', Added_line ''b'', Added_line ''c'']
   \<and> printDiff (''a'' @ [CHR 0x0A] @ ''b'' @ [CHR 0x0A] @ ''c'' @ [CHR 0x0A])
       (''x'' @ [CHR 0x0A] @ ''a'' @ [CHR 0x0A] @ ''b'' @ [CHR 0x0A] @ ''c'') ''t''
     = ''--- a/t'' @ [CHR 0x0A] @ ''+++ b/t'' @ [CHR 0x0A]
       @ ''- a'' @ [CHR 0x0A] @ ''+ x'' @ [CHR 0x0A] @ ''- b'' @ [CHR 0x0A] @ ''+ a'' @ [CHR 0x0A]
       @ ''- c'' @ [CHR 0x0A] @ ''+ b'' @ [CHR 0x0A] @ ''+ c'' @ [CHR 0x0A] @ [CHR 0x0A]"
  using printDiff_is_reference_walk[of "''a'' @ [CHR 0x0A] @ ''b'' @ [CHR 0x0A] @ ''c'' @ [CHR 0x0A]"
      "''x'' @ [CHR 0x0A] @ ''a'' @ [CHR 0x0A] @ ''b'' @ [CHR 0x0A] @ ''c''" "''t''"]
  by (simp add: getlines_def diff_header_def render_lines_def)

section \<open>Facts about the small repository\<close>

lemmas demo_simps =
  demo_env_def demo_disk_def MiniGit_new_def directoryExists_def loadIndex_def getlines_def
  loadIndex_line_def readFromFile_def writeToFile_def fileExists_def layout_defs

lemma demo_content_addressed: "content_addressed demo_env (demo_disk head)"
  by (auto simp: content_addressed_def demo_simps split: if_splits)

lemma demo_hash_inj: "inj (calculateHash demo_env)"
  by (simp add: demo_env_def inj_def)

lemmas demo_run_simps =
  merge_def commit_def checkout_def add_def saveIndex_def updateHead_def getHeadCommitHash_def
  loadCommit_def getBlobContent_def findLCA_def findLCA_loop.simps findLCA_side_def try_parents_def
  merge_file_def blob_or_empty_def allFiles_def CommitNode_new_def CommitNode_default_def
  getHash_def fs_remove_def Let_def demo_simps

section \<open>Properties of the object store\<close>

lemma object_path_not_index:
  "OBJECTS_DIR @ CHR ''/'' # digest \<noteq> INDEX_FILE"
  "INDEX_FILE \<noteq> OBJECTS_DIR @ CHR ''/'' # digest"
  by (simp_all add: layout_defs)

lemma saveIndex_objects:
  "saveIndex st staging = (r, st') \<Longrightarrow> objects st' digest = objects st digest"
  by (auto simp: saveIndex_def writeToFile_def objects_def readFromFile_def Let_def
      object_path_not_index split: if_splits)

lemma add_success:
  assumes "add E g filename = (Inr u, g1)" "readFromFile (disk g) filename = Some c"
  shows "stagingArea g1 = AList.update filename (calculateHash E c) (stagingArea g)"
    and "objects (disk g1) (calculateHash E c) \<noteq> None"
    and "objects (disk g) (calculateHash E c) = None \<Longrightarrow> objects (disk g1) (calculateHash E c) = Some c"
    and "objects (disk g) digest \<noteq> None \<Longrightarrow> objects (disk g1) digest = objects (disk g) digest"
proof -
  let ?h = "calculateHash E c"
  let ?st1 = "if \<not> fileExists (disk g) (OBJECTS_DIR @ ''/'' @ ?h)
              then writeToFile (disk g) (OBJECTS_DIR @ ''/'' @ ?h) c else (True, disk g)"
  from assms have ex: "fileExists (disk g) filename"
    by (simp add: fileExists_def readFromFile_def)
  from assms ex have ok: "fst ?st1"
    and rest: "(case saveIndex (snd ?st1) (AList.update filename ?h (stagingArea g)) of
        (Inl e, st2) \<Rightarrow> (Inl e, \<lparr>stagingArea = AList.update filename ?h (stagingArea g), disk = st2\<rparr>)
      | (Inr u, st2) \<Rightarrow> (Inr (), \<lparr>stagingArea = AList.update filename ?h (stagingArea g), disk = st2\<rparr>))
      = (Inr u, g1)"
    by (auto simp: add_def Let_def split: prod.splits if_splits)
  obtain r st2 where sv: "saveIndex (snd ?st1) (AList.update filename ?h (stagingArea g)) = (r, st2)"
    by (cases "saveIndex (snd ?st1) (AList.update filename ?h (stagingArea g))")
  from rest sv have g1: "g1 = \<lparr>stagingArea = AList.update filename ?h (stagingArea g), disk = st2\<rparr>"
    by (cases r) auto
  from g1 show "stagingArea g1 = AList.update filename ?h (stagingArea g)"
    by simp
  have keep: "objects (disk g1) digest = objects (snd ?st1) digest" for digest
    using saveIndex_objects[OF sv] g1 by simp
  show "objects (disk g1) ?h \<noteq> None"
    unfolding keep using ok
    by (auto simp: objects_def fileExists_def readFromFile_def writeToFile_def split: if_splits)
  show "objects (disk g1) ?h = Some c" if "objects (disk g) ?h = None"
    unfolding keep using ok that
    by (auto simp: objects_def fileExists_def readFromFile_def writeToFile_def split: if_splits)
  show "objects (disk g1) digest = objects (disk g) digest" if "objects (disk g) digest \<noteq> None"
    unfolding keep using ok that
    by (auto simp: objects_def fileExists_def readFromFile_def writeToFile_def split: if_splits)
qed

text \<open>
  C7. Content addressing. In a store that keeps every object under the digest of its
  content, with a collision-free digest function: when \<^verbatim>\<open>add\<close> succeeds on a file of
  content \<open>c\<close>, the file is staged under \<open>Hash c\<close> and exactly \<open>c\<close> is read back under
  that digest; a second successful \<^verbatim>\<open>add\<close> of a file with the same content stages the
  same digest, reads back the same content and leaves every object of the store as it
  was (the blob write is skipped because the key exists).
\<close>

theorem add_content_addressed:
  assumes hash_inj: "inj (calculateHash E)"
    and store: "content_addressed E (disk g)"
    and first_read: "readFromFile (disk g) filename = Some c"
    and first_add: "add E g filename = (Inr u, g1)"
    and second_read: "readFromFile (disk g1) filename' = Some c"
    and second_add: "add E g1 filename' = (Inr u', g2)"
  shows "map_of (stagingArea g1) filename = Some (calculateHash E c)
       \<and> getBlobContent (disk g1) (calculateHash E c) = Inr c
       \<and> map_of (stagingArea g2) filename' = Some (calculateHash E c)
       \<and> getBlobContent (disk g2) (calculateHash E c) = Inr c
       \<and> (\<forall>digest. objects (disk g2) digest = objects (disk g1) digest)"
proof -
  let ?h = "calculateHash E c"
  note a1 = add_success[OF first_add first_read]
  note a2 = add_success[OF second_add second_read]
  have stored1: "objects (disk g1) ?h = Some c"
  proof (cases "objects (disk g) ?h")
    case None
    then show ?thesis by (rule a1(3))
  next
    case (Some c')
    with store have "calculateHash E c' = ?h"
      by (simp add: content_addressed_def objects_def)
    with hash_inj have "c' = c"
      by (simp add: inj_eq)
    with Some a1(4)[of ?h] show ?thesis by simp
  qed
  have same: "objects (disk g2) digest = objects (disk g1) digest" for digest
  proof (cases "objects (disk g1) digest")
    case (Some x)
    then show ?thesis using a2(4)[of digest] by simp
  next
    case None
    with stored1 have ne: "digest \<noteq> ?h" by auto
    from second_add second_read stored1 None show ?thesis
      by (auto simp: add_def Let_def objects_def fileExists_def readFromFile_def saveIndex_def
          writeToFile_def object_path_not_index split: if_splits)
  qed
  from a1(1) have "map_of (stagingArea g1) filename = Some ?h"
    by (simp add: update_conv')
  moreover from stored1 have "getBlobContent (disk g1) ?h = Inr c"
    by (simp add: getBlobContent_def objects_def)
  moreover from a2(1) have "map_of (stagingArea g2) filename' = Some ?h"
    by (simp add: update_conv')
  moreover from stored1 same have "getBlobContent (disk g2) ?h = Inr c"
    by (simp add: getBlobContent_def objects_def)
  ultimately show ?thesis using same by simp
qed

lemma demo_first_add: "fst (add demo_env (MiniGit_new (demo_disk ''master'')) ''n'') = Inr ()"
  by (simp add: add_def saveIndex_def Let_def demo_simps)

lemma demo_second_read:
  "readFromFile (disk (snd (add demo_env (MiniGit_new (demo_disk ''master'')) ''n''))) ''n2'' = Some ''N''"
  by (simp add: add_def saveIndex_def Let_def demo_simps)

lemma demo_second_add:
  "fst (add demo_env (snd (add demo_env (MiniGit_new (demo_disk ''master'')) ''n'')) ''n2'') = Inr ()"
  by (simp add: add_def saveIndex_def Let_def demo_simps)

theorem add_content_addressed_witness:
  "inj (calculateHash demo_env)
   \<and> content_addressed demo_env (disk (MiniGit_new (demo_disk ''master'')))
   \<and> readFromFile (disk (MiniGit_new (demo_disk ''master''))) ''n'' = Some ''N''
   \<and> (case add demo_env (MiniGit_new (demo_disk ''master'')) ''n'' of (r1, g1) \<Rightarrow>
        r1 = Inr ()
        \<and> readFromFile (disk g1) ''n2'' = Some ''N''
        \<and> map_of (stagingArea g1) ''n'' = Some ''#N''
        \<and> getBlobContent (disk g1) ''#N'' = Inr ''N''
        \<and> (case add demo_env g1 ''n2'' of (r2, g2) \<Rightarrow>
             r2 = Inr ()
             \<and> map_of (stagingArea g2) ''n2'' = Some ''#N''
             \<and> getBlobContent (disk g2) ''#N'' = Inr ''N''
             \<and> (\<forall>digest. objects (disk g2) digest = objects (disk g1) digest)))"
proof -
  let ?g = "MiniGit_new (demo_disk ''master'')"
  let ?g1 = "snd (add demo_env ?g ''n'')"
  let ?g2 = "snd (add demo_env ?g1 ''n2'')"
  have h1: "inj (calculateHash demo_env)"
    by (rule demo_hash_inj)
  have h2: "content_addressed demo_env (disk ?g)"
    by (simp add: MiniGit_new_def demo_content_addressed)
  have h3: "readFromFile (disk ?g) ''n'' = Some ''N''"
    by (simp add: demo_simps)
  have h4: "add demo_env ?g ''n'' = (Inr (), ?g1)"
    using demo_first_add by (simp add: prod_eq_iff)
  have h5: "readFromFile (disk ?g1) ''n2'' = Some ''N''"
    by (rule demo_second_read)
  have h6: "add demo_env ?g1 ''n2'' = (Inr (), ?g2)"
    using demo_second_add by (simp add: prod_eq_iff)
  have hash: "calculateHash demo_env ''N'' = ''#N''"
    by (simp add: demo_env_def)
  from add_content_addressed[OF h1 h2 h3 h4 h5 h6] h1 h2 h3 h5 demo_first_add demo_second_add
  show ?thesis
    unfolding hash by (simp add: case_prod_beta)
qed


section \<open>Properties of commit and merge that leave the repository alone\<close>

text \<open>
  C10. With an empty staging area \<^verbatim>\<open>commit\<close> returns at once: the whole state, and with
  it the object store, \<^verbatim>\<open>HEAD\<close>, every branch reference and the index file, is unchanged.
\<close>

theorem commit_empty_staging_noop:
  "stagingArea g = [] \<Longrightarrow> commit E g msg = (Inr Nothing_to_commit, g)"
  by (simp add: commit_def)

theorem commit_empty_staging_noop_witness:
  "stagingArea \<lparr>stagingArea = [], disk = demo_disk ''master''\<rparr> = []
   \<and> commit demo_env \<lparr>stagingArea = [], disk = demo_disk ''master''\<rparr> ''empty''
       = (Inr Nothing_to_commit, \<lparr>stagingArea = [], disk = demo_disk ''master''\<rparr>)"
  using commit_empty_staging_noop[of "\<lparr>stagingArea = [], disk = demo_disk ''master''\<rparr>" demo_env "''empty''"]
  by simp

text \<open>
  C6. When the current tip and the tip of the branch to merge are the same commit
  digest, \<^verbatim>\<open>merge\<close> reports that the branch is up to date and the whole state is
  unchanged: no object is stored, no working file is written or removed, no reference
  is updated.
\<close>

theorem merge_equal_tips_noop:
  assumes "getHeadCommitHash (disk g) = tip" "tip \<noteq> []"
    and "readFromFile (disk g) (HEADS_DIR @ ''/'' @ branchName) = Some tip"
  shows "merge E g branchName = (Inr AlreadyUpToDate, g)"
  using assms by (simp add: merge_def)

theorem merge_equal_tips_noop_witness:
  "getHeadCommitHash (disk (MiniGit_new (demo_disk ''master''))) = ''#A''
   \<and> readFromFile (disk (MiniGit_new (demo_disk ''master''))) (HEADS_DIR @ ''/'' @ ''master'') = Some ''#A''
   \<and> merge demo_env (MiniGit_new (demo_disk ''master'')) ''master''
       = (Inr AlreadyUpToDate, MiniGit_new (demo_disk ''master''))"
proof -
  have h1: "getHeadCommitHash (disk (MiniGit_new (demo_disk ''master''))) = ''#A''"
    by (simp add: getHeadCommitHash_def demo_simps)
  have h2: "''#A'' \<noteq> ([] :: string)"
    by simp
  have h3: "readFromFile (disk (MiniGit_new (demo_disk ''master''))) (HEADS_DIR @ ''/'' @ ''master'') = Some ''#A''"
    by (simp add: demo_simps)
  from h1 h3 merge_equal_tips_noop[OF h1 h2 h3, of demo_env] show ?thesis
    by simp
qed


section \<open>Properties of the ancestor search\<close>

lemma push_parents_reached:
  "push_parents ps d v q = (v', q')
     \<Longrightarrow> dom v' \<subseteq> dom v \<union> set ps \<and> fst ` set q' \<subseteq> fst ` set q \<union> set ps"
proof (induction ps d v q rule: push_parents.induct)
  case (1 depth visited q)
  then show ?case by simp
next
  case (2 parent rest depth visited q)
  show ?case
  proof (cases "visited parent = None")
    case True
    with "2.prems"
    have run: "push_parents rest depth (visited(parent \<mapsto> depth + 1)) (q @ [(parent, depth + 1)]) = (v', q')"
      by simp
    have "dom v' \<subseteq> dom (visited(parent \<mapsto> depth + 1)) \<union> set rest
        \<and> fst ` set q' \<subseteq> fst ` set (q @ [(parent, depth + 1)]) \<union> set rest"
      by (rule "2.IH"(1)[OF True run])
    then show ?thesis by auto
  next
    case False
    with "2.prems" have run: "push_parents rest depth visited q = (v', q')"
      by simp
    have "dom v' \<subseteq> dom visited \<union> set rest \<and> fst ` set q' \<subseteq> fst ` set q \<union> set rest"
      by (rule "2.IH"(2)[OF False run])
    then show ?thesis by auto
  qed
qed

lemma findLCA_side_hit:
  assumes "findLCA_side E st other visited q = Inl r"
  shows "r \<in> fst ` set q" and "other r \<noteq> None"
  using assms by (auto simp: findLCA_side_def split: list.splits if_splits)

lemma findLCA_side_reached:
  assumes run: "findLCA_side E st other visited q = Inr (visited', q')"
    and inv: "side_reached E st start visited q"
  shows "side_reached E st start visited' q'"
proof (cases q)
  case Nil
  with run inv show ?thesis by (simp add: findLCA_side_def)
next
  case (Cons x rest)
  obtain current depth where x: "x = (current, depth)" by (cases x)
  from run Cons x
  have push: "push_parents (try_parents E st current) depth visited rest = (visited', q')"
    by (simp add: findLCA_side_def split: if_splits)
  from inv Cons x have cur: "ancestor E st start current"
    by (simp add: side_reached_def)
  then have ps: "\<forall>p \<in> set (try_parents E st current). ancestor E st start p"
    by (auto intro: ancestor_parent)
  from inv Cons have old: "\<forall>h \<in> dom visited. ancestor E st start h"
    "\<forall>h \<in> fst ` set rest. ancestor E st start h"
    by (simp_all add: side_reached_def)
  from push_parents_reached[OF push] ps old show ?thesis
    unfolding side_reached_def by blast
qed

lemma findLCA_loop_common:
  assumes "side_reached E st a visited1 q1" "side_reached E st b visited2 q2"
  shows "findLCA_loop E st visited1 visited2 q1 q2 = []
       \<or> (ancestor E st a (findLCA_loop E st visited1 visited2 q1 q2)
          \<and> ancestor E st b (findLCA_loop E st visited1 visited2 q1 q2))"
  using assms
proof (induction E st visited1 visited2 q1 q2 rule: findLCA_loop.induct)
  case (1 E st visited1 visited2 q1 q2)
  show ?case
  proof (cases "q1 \<noteq> [] \<or> q2 \<noteq> []")
    case False
    then show ?thesis by (simp add: findLCA_loop.simps)
  next
    case busy: True
    show ?thesis
    proof (cases "findLCA_side E st visited2 visited1 q1")
      case (Inl r)
      from findLCA_side_hit[OF Inl] "1.prems" have "ancestor E st a r" "ancestor E st b r"
        by (auto simp: side_reached_def)
      moreover from busy Inl have "findLCA_loop E st visited1 visited2 q1 q2 = r"
        by (simp add: findLCA_loop.simps)
      ultimately show ?thesis by simp
    next
      case (Inr s1)
      obtain v1' q1' where s1: "s1 = (v1', q1')" by (cases s1)
      have inv1: "side_reached E st a v1' q1'"
        using findLCA_side_reached[OF Inr[unfolded s1] "1.prems"(1)] .
      show ?thesis
      proof (cases "findLCA_side E st v1' visited2 q2")
        case (Inl r)
        from findLCA_side_hit[OF Inl] "1.prems"(2) inv1 have "ancestor E st a r" "ancestor E st b r"
          by (auto simp: side_reached_def)
        moreover from busy Inr s1 Inl have "findLCA_loop E st visited1 visited2 q1 q2 = r"
          by (simp add: findLCA_loop.simps)
        ultimately show ?thesis by simp
      next
        case inr2: (Inr s2)
        obtain v2' q2' where s2: "s2 = (v2', q2')" by (cases s2)
        have inv2: "side_reached E st b v2' q2'"
          using findLCA_side_reached[OF inr2[unfolded s2] "1.prems"(2)] .
        have step: "findLCA_loop E st visited1 visited2 q1 q2 = findLCA_loop E st v1' v2' q1' q2'"
          using busy Inr s1 inr2 s2 by (simp add: findLCA_loop.simps)
        from "1.IH"[OF busy Inr s1[symmetric] inr2 s2[symmetric] inv1 inv2] show ?thesis
          unfolding step .
      qed
    qed
  qed
qed

lemma findLCA_common:
  "findLCA E st a b = [] \<or> (ancestor E st a (findLCA E st a b) \<and> ancestor E st b (findLCA E st a b))"
  unfolding findLCA_def
  by (rule findLCA_loop_common) (simp_all add: side_reached_def ancestor_self)


lemma push_parents_keeps:
  "push_parents ps d v q = (v', q') \<Longrightarrow> v x \<noteq> None \<Longrightarrow> v' x \<noteq> None"
proof (induction ps d v q rule: push_parents.induct)
  case (1 depth visited q)
  then show ?case by simp
next
  case (2 parent rest depth visited q)
  show ?case
  proof (cases "visited parent = None")
    case True
    with "2.prems"
    have run: "push_parents rest depth (visited(parent \<mapsto> depth + 1)) (q @ [(parent, depth + 1)]) = (v', q')"
      by simp
    from "2.prems"(2) have "(visited(parent \<mapsto> depth + 1)) x \<noteq> None"
      by simp
    with "2.IH"(1)[OF True run] show ?thesis .
  next
    case False
    with "2.prems" have run: "push_parents rest depth visited q = (v', q')"
      by simp
    from "2.IH"(2)[OF False run "2.prems"(2)] show ?thesis .
  qed
qed

lemma findLCA_side_no_hit:
  "other current = None \<Longrightarrow>
   findLCA_side E st other visited ((current, depth) # q)
     = Inr (push_parents (try_parents E st current) depth visited q)"
  by (simp add: findLCA_side_def)

lemma findLCA_side_none_hit:
  assumes "\<forall>h \<in> fst ` set q. other h = None"
  shows "\<exists>visited' q'. findLCA_side E st other visited q = Inr (visited', q')
           \<and> (\<forall>x. visited x \<noteq> None \<longrightarrow> visited' x \<noteq> None)"
proof (cases q)
  case Nil
  then show ?thesis by (simp add: findLCA_side_def)
next
  case (Cons x rest)
  obtain current depth where x: "x = (current, depth)" by (cases x)
  obtain v' q' where push: "push_parents (try_parents E st current) depth visited rest = (v', q')"
    by (cases "push_parents (try_parents E st current) depth visited rest")
  from assms Cons x have "other current = None" by simp
  then have "findLCA_side E st other visited q = Inr (v', q')"
    using Cons x push by (simp add: findLCA_side_no_hit)
  moreover have "\<forall>x. visited x \<noteq> None \<longrightarrow> v' x \<noteq> None"
    using push_parents_keeps[OF push] by blast
  ultimately show ?thesis by blast
qed

lemma findLCA_loop_hit1:
  "visited2 current \<noteq> None \<Longrightarrow>
   findLCA_loop E st visited1 visited2 ((current, depth) # q1) q2 = current"
  by (simp add: findLCA_loop.simps findLCA_side_def)

lemma findLCA_loop_hit2:
  assumes "q1 \<noteq> [] \<or> q2 \<noteq> []"
    and "findLCA_side E st visited2 visited1 q1 = Inr (visited1', q1')"
    and "findLCA_side E st visited1' visited2 q2 = Inl current"
  shows "findLCA_loop E st visited1 visited2 q1 q2 = current"
  using assms by (simp add: findLCA_loop.simps)

lemma findLCA_loop_step:
  assumes "q1 \<noteq> [] \<or> q2 \<noteq> []"
    and "findLCA_side E st visited2 visited1 q1 = Inr (visited1', q1')"
    and "findLCA_side E st visited1' visited2 q2 = Inr (visited2', q2')"
  shows "findLCA_loop E st visited1 visited2 q1 q2 = findLCA_loop E st visited1' visited2' q1' q2'"
  using assms by (simp add: findLCA_loop.simps)

lemma findLCA_loop_exhausted: "findLCA_loop E st visited1 visited2 [] [] = []"
  by (simp add: findLCA_loop.simps)

lemma findLCA_same: "findLCA E st x x = x"
  by (simp add: findLCA_def findLCA_loop_hit1)

lemma findLCA_chain:
  assumes pc: "try_parents E st c = [b]" and pb: "try_parents E st b = [a]"
    and dist: "a \<noteq> b" "b \<noteq> c" "a \<noteq> c"
    and acyclic: "a \<notin> set (try_parents E st a)" "b \<notin> set (try_parents E st a)"
      "c \<notin> set (try_parents E st a)"
  shows "findLCA E st c a = a"
proof -
  \<comment> \<open>first round: \<open>c\<close> is expanded to \<open>b\<close>, then \<open>a\<close> to its parents\<close>
  let ?v1 = "[c \<mapsto> 0, b \<mapsto> 1] :: string \<rightharpoonup> int"
  have s1: "findLCA_side E st [a \<mapsto> 0] [c \<mapsto> 0] [(c, 0)] = Inr (?v1, [(b, 1)])"
    using dist by (simp add: findLCA_side_def pc)
  obtain v2 q2 where push2: "push_parents (try_parents E st a) 0 [a \<mapsto> 0] [] = (v2, q2)"
    by (cases "push_parents (try_parents E st a) 0 [a \<mapsto> 0] []")
  have s2: "findLCA_side E st ?v1 [a \<mapsto> 0] [(a, 0)] = Inr (v2, q2)"
    using dist push2 by (simp add: findLCA_side_def)
  have r1: "findLCA_loop E st [c \<mapsto> 0] [a \<mapsto> 0] [(c, 0)] [(a, 0)]
              = findLCA_loop E st ?v1 v2 [(b, 1)] q2"
    by (rule findLCA_loop_step[OF _ s1 s2]) simp
  from push_parents_reached[OF push2]
  have v2_dom: "dom v2 \<subseteq> {a} \<union> set (try_parents E st a)"
    and q2_set: "fst ` set q2 \<subseteq> set (try_parents E st a)"
    by auto
  have v2_a: "v2 a \<noteq> None"
    by (rule push_parents_keeps[OF push2]) simp
  \<comment> \<open>second round: \<open>b\<close> is expanded to \<open>a\<close>; the other side meets nothing visited\<close>
  let ?v1' = "[c \<mapsto> 0, b \<mapsto> 1, a \<mapsto> 2] :: string \<rightharpoonup> int"
  from v2_dom dist acyclic have "v2 b = None"
    by (auto simp: dom_def)
  then have s3: "findLCA_side E st v2 ?v1 [(b, 1)] = Inr (?v1', [(a, 2)])"
    using dist by (simp add: findLCA_side_def pb)
  have "\<forall>h \<in> fst ` set q2. ?v1' h = None"
    using q2_set acyclic by auto
  from findLCA_side_none_hit[OF this, of E st v2] obtain v2' q2' where
    s4: "findLCA_side E st ?v1' v2 q2 = Inr (v2', q2')" and keep: "\<forall>x. v2 x \<noteq> None \<longrightarrow> v2' x \<noteq> None"
    by blast
  have r2: "findLCA_loop E st ?v1 v2 [(b, 1)] q2 = findLCA_loop E st ?v1' v2' [(a, 2)] q2'"
    by (rule findLCA_loop_step[OF _ s3 s4]) simp
  \<comment> \<open>third round: \<open>a\<close> is popped on the first side and was visited by the second\<close>
  from keep v2_a have "v2' a \<noteq> None" by blast
  then have r3: "findLCA_loop E st ?v1' v2' [(a, 2)] q2' = a"
    by (rule findLCA_loop_hit1)
  show ?thesis
    unfolding findLCA_def r1 r2 r3 ..
qed


lemma demo_parents:
  "try_parents demo_env (demo_disk head) ''#E'' = [''#D'']"
  "try_parents demo_env (demo_disk head) ''#D'' = [''#A'']"
  "try_parents demo_env (demo_disk head) ''#A'' = []"
  "try_parents demo_env (demo_disk head) ''#T'' = [''#A'']"
  "try_parents demo_env (demo_disk head) ''#O'' = [''#gone'']"
  by (simp_all add: try_parents_def loadCommit_def demo_simps)

text \<open>
  C4. \<^verbatim>\<open>findLCA\<close> is the alternating search seeded with the two start digests at depth 0:
  a side's block pops one node and returns it when the other side has visited it,
  otherwise it expands it; the loop returns the first node so returned (side one before
  side two in each round, side two testing against what side one has just visited),
  goes on with both sides expanded when neither returns, and returns the empty string
  when both queues are exhausted. In particular \<open>findLCA x x = x\<close> for every digest, and
  for a chain \<open>a \<leftarrow> b \<leftarrow> c\<close> of stored commits (the only parent of \<open>c\<close> is \<open>b\<close>, the only
  parent of \<open>b\<close> is \<open>a\<close>, the three digests differ and none is a parent of \<open>a\<close>)
  \<open>findLCA c a = a\<close>.
\<close>

theorem findLCA_first_hit:
  "findLCA E st tip_a tip_b
     = findLCA_loop E st [tip_a \<mapsto> 0] [tip_b \<mapsto> 0] [(tip_a, 0)] [(tip_b, 0)]
   \<and> findLCA_side E st other visited [] = Inr (visited, [])
   \<and> (other current \<noteq> None \<longrightarrow>
        findLCA_side E st other visited ((current, depth) # q) = Inl current)
   \<and> (other current = None \<longrightarrow>
        findLCA_side E st other visited ((current, depth) # q)
          = Inr (push_parents (try_parents E st current) depth visited q))
   \<and> ((qa \<noteq> [] \<or> qb \<noteq> []) \<and> findLCA_side E st visited_b visited_a qa = Inl current \<longrightarrow>
        findLCA_loop E st visited_a visited_b qa qb = current)
   \<and> ((qa \<noteq> [] \<or> qb \<noteq> []) \<and> findLCA_side E st visited_b visited_a qa = Inr (visited_a', qa')
        \<and> findLCA_side E st visited_a' visited_b qb = Inl current \<longrightarrow>
        findLCA_loop E st visited_a visited_b qa qb = current)
   \<and> ((qa \<noteq> [] \<or> qb \<noteq> []) \<and> findLCA_side E st visited_b visited_a qa = Inr (visited_a', qa')
        \<and> findLCA_side E st visited_a' visited_b qb = Inr (visited_b', qb') \<longrightarrow>
        findLCA_loop E st visited_a visited_b qa qb = findLCA_loop E st visited_a' visited_b' qa' qb')
   \<and> findLCA_loop E st visited_a visited_b [] [] = []
   \<and> findLCA E st x x = x
   \<and> (try_parents E st c = [b] \<and> try_parents E st b = [a] \<and> distinct [a, b, c]
        \<and> set (try_parents E st a) \<inter> {a, b, c} = {} \<longrightarrow>
        findLCA E st c a = a)"
proof -
  have chain: "findLCA E st c a = a"
    if "try_parents E st c = [b] \<and> try_parents E st b = [a] \<and> distinct [a, b, c]
        \<and> set (try_parents E st a) \<inter> {a, b, c} = {}"
    using that by (intro findLCA_chain[of E st c b a]) auto
  have hit1: "findLCA_loop E st visited_a visited_b qa qb = current"
    if "(qa \<noteq> [] \<or> qb \<noteq> []) \<and> findLCA_side E st visited_b visited_a qa = Inl current"
    using that by (simp add: findLCA_loop.simps)
  show ?thesis
    using chain hit1 findLCA_loop_hit2[of qa qb E st visited_b visited_a visited_a' qa' current]
      findLCA_loop_step[of qa qb E st visited_b visited_a visited_a' qa' visited_b' qb']
    by (simp add: findLCA_def[symmetric] findLCA_same findLCA_loop_exhausted findLCA_side_def)
qed

theorem findLCA_first_hit_witness:
  "try_parents demo_env (demo_disk ''master'') ''#E'' = [''#D'']
   \<and> try_parents demo_env (demo_disk ''master'') ''#D'' = [''#A'']
   \<and> distinct [''#A'', ''#D'', ''#E'']
   \<and> set (try_parents demo_env (demo_disk ''master'') ''#A'') \<inter> {''#A'', ''#D'', ''#E''} = {}
   \<and> findLCA demo_env (demo_disk ''master'') ''#E'' ''#A'' = ''#A''
   \<and> findLCA demo_env (demo_disk ''master'') ''#D'' ''#D'' = ''#D''
   \<and> [''#A'' \<mapsto> (0::int)] ''#A'' \<noteq> None
   \<and> findLCA_side demo_env (demo_disk ''master'') [''#A'' \<mapsto> 0] [''#E'' \<mapsto> 0, ''#D'' \<mapsto> 1] [(''#A'', 2)]
       = Inl ''#A''
   \<and> findLCA_loop demo_env (demo_disk ''master'') [''#E'' \<mapsto> 0, ''#D'' \<mapsto> 1] [''#A'' \<mapsto> 0] [(''#A'', 2)] []
       = ''#A''
   \<and> [''#E'' \<mapsto> (0::int)] ''#T'' = None
   \<and> findLCA_side demo_env (demo_disk ''master'') [''#E'' \<mapsto> 0] [''#T'' \<mapsto> 0] [(''#T'', 0)]
       = Inr (push_parents [''#A''] 0 [''#T'' \<mapsto> 0] [])"
proof -
  let ?st = "demo_disk ''master''"
  note side_hit_rule =
    findLCA_first_hit[where other = "[''#A'' \<mapsto> 0]" and current = "''#A''", THEN conjunct2, THEN conjunct2, THEN conjunct1]
  note side_expand_rule =
    findLCA_first_hit[where other = "[''#E'' \<mapsto> 0]" and current = "''#T''", THEN conjunct2, THEN conjunct2, THEN conjunct2, THEN conjunct1]
  note loop_hit_rule = findLCA_first_hit[THEN conjunct2, THEN conjunct2, THEN conjunct2, THEN conjunct2, THEN conjunct1]
  note same_rule = findLCA_first_hit[THEN conjunct2, THEN conjunct2, THEN conjunct2, THEN conjunct2, THEN conjunct2, THEN conjunct2, THEN conjunct2, THEN conjunct2, THEN conjunct1]
  note chain_rule = findLCA_first_hit[THEN conjunct2, THEN conjunct2, THEN conjunct2, THEN conjunct2, THEN conjunct2, THEN conjunct2, THEN conjunct2, THEN conjunct2, THEN conjunct2]
  have chain_hyp:
    "try_parents demo_env ?st ''#E'' = [''#D''] \<and> try_parents demo_env ?st ''#D'' = [''#A'']
     \<and> distinct [''#A'', ''#D'', ''#E'']
     \<and> set (try_parents demo_env ?st ''#A'') \<inter> {''#A'', ''#D'', ''#E''} = {}"
    by (simp add: demo_parents)
  have chain: "findLCA demo_env ?st ''#E'' ''#A'' = ''#A''"
    by (rule chain_rule[THEN mp, OF chain_hyp])
  have same: "findLCA demo_env ?st ''#D'' ''#D'' = ''#D''"
    by (rule same_rule)
  have visited_hyp: "[''#A'' \<mapsto> (0::int)] ''#A'' \<noteq> None"
    by simp
  have side_hit: "findLCA_side demo_env ?st [''#A'' \<mapsto> 0] [''#E'' \<mapsto> 0, ''#D'' \<mapsto> 1] [(''#A'', 2)]
       = Inl ''#A''"
    by (rule side_hit_rule[THEN mp, OF visited_hyp])
  have loop_hit: "findLCA_loop demo_env ?st [''#E'' \<mapsto> 0, ''#D'' \<mapsto> 1] [''#A'' \<mapsto> 0] [(''#A'', 2)] []
       = ''#A''"
    by (rule loop_hit_rule[THEN mp]) (simp add: side_hit)
  have unvisited_hyp: "[''#E'' \<mapsto> (0::int)] ''#T'' = None"
    by simp
  have "findLCA_side demo_env ?st [''#E'' \<mapsto> 0] [''#T'' \<mapsto> 0] [(''#T'', 0)]
       = Inr (push_parents (try_parents demo_env ?st ''#T'') 0 [''#T'' \<mapsto> 0] [])"
    by (rule side_expand_rule[THEN mp, OF unvisited_hyp])
  then have side_expand: "findLCA_side demo_env ?st [''#E'' \<mapsto> 0] [''#T'' \<mapsto> 0] [(''#T'', 0)]
       = Inr (push_parents [''#A''] 0 [''#T'' \<mapsto> 0] [])"
    by (simp only: demo_parents)
  show ?thesis
    by (intro conjI chain_hyp[THEN conjunct1] chain_hyp[THEN conjunct2, THEN conjunct1]
        chain_hyp[THEN conjunct2, THEN conjunct2, THEN conjunct1]
        chain_hyp[THEN conjunct2, THEN conjunct2, THEN conjunct2]
        chain same visited_hyp side_hit loop_hit unvisited_hyp side_expand)
qed

text \<open>
  C9. The search never fails: a digest whose commit cannot be loaded has no parents to
  expand, so the side's block only pops it (or returns it when the other side has
  visited it), and the search, which is total, returns the empty string or a digest
  that is an ancestor of both start digests.
\<close>

theorem findLCA_swallows_load_failures:
  "(loadCommit E st h = Inl e \<longrightarrow>
      try_parents E st h = []
      \<and> findLCA_side E st other visited ((h, depth) # q)
          = (if other h \<noteq> None then Inl h else Inr (visited, q)))
   \<and> (findLCA E st tip_a tip_b = []
       \<or> (ancestor E st tip_a (findLCA E st tip_a tip_b)
          \<and> ancestor E st tip_b (findLCA E st tip_a tip_b)))"
  using findLCA_common[of E st tip_a tip_b]
  by (simp add: findLCA_side_def try_parents_def)


theorem findLCA_swallows_load_failures_witness:
  "loadCommit demo_env (demo_disk ''master'') ''#gone'' = Inl (runtime_error ''Commit not found: #gone'')
   \<and> try_parents demo_env (demo_disk ''master'') ''#gone'' = []
   \<and> findLCA_side demo_env (demo_disk ''master'') [''#D'' \<mapsto> 0, ''#A'' \<mapsto> 1] [''#O'' \<mapsto> 0, ''#gone'' \<mapsto> 1] [(''#gone'', 1)]
       = Inr ([''#O'' \<mapsto> 0, ''#gone'' \<mapsto> 1], [])
   \<and> findLCA demo_env (demo_disk ''master'') ''#O'' ''#D'' = []
   \<and> findLCA demo_env (demo_disk ''master'') ''#E'' ''#T'' = ''#A''
   \<and> ancestor demo_env (demo_disk ''master'') ''#E'' ''#A''
   \<and> ancestor demo_env (demo_disk ''master'') ''#T'' ''#A''"
proof -
  let ?st = "demo_disk ''master''"
  have load: "loadCommit demo_env ?st ''#gone'' = Inl (runtime_error ''Commit not found: #gone'')"
    by (simp add: loadCommit_def demo_simps)
  have other: "[''#D'' \<mapsto> (0::int), ''#A'' \<mapsto> 1] ''#gone'' = None"
    by simp
  from findLCA_swallows_load_failures[where E = demo_env and st = ?st and h = "''#gone''"
      and e = "runtime_error ''Commit not found: #gone''" and other = "[''#D'' \<mapsto> 0, ''#A'' \<mapsto> 1]"
      and visited = "[''#O'' \<mapsto> 0, ''#gone'' \<mapsto> 1]" and depth = 1 and q = "[]"] load other
  have swallowed: "try_parents demo_env ?st ''#gone'' = []"
    "findLCA_side demo_env ?st [''#D'' \<mapsto> 0, ''#A'' \<mapsto> 1] [''#O'' \<mapsto> 0, ''#gone'' \<mapsto> 1] [(''#gone'', 1)]
       = Inr ([''#O'' \<mapsto> 0, ''#gone'' \<mapsto> 1], [])"
    by simp_all
  have dangling: "findLCA demo_env ?st ''#O'' ''#D'' = []"
    by (simp add: demo_run_simps)
  have found: "findLCA demo_env ?st ''#E'' ''#T'' = ''#A''"
    by (simp add: demo_run_simps)
  from findLCA_swallows_load_failures[where E = demo_env and st = ?st
      and tip_a = "''#E''" and tip_b = "''#T''"] found
  have common: "ancestor demo_env ?st ''#E'' ''#A''" "ancestor demo_env ?st ''#T'' ''#A''"
    by simp_all
  from load swallowed dangling found common show ?thesis by blast
qed

section \<open>Merges with a conflict\<close>

lemma merge_file_frame:
  assumes "merge_file st branchName lcaFiles targetFiles file conflictsExist mergedFiles = (r, st')"
  shows "dirs st' = dirs st" and "writable st' = writable st"
    and "path \<noteq> file \<Longrightarrow> fmlookup (files st') path = fmlookup (files st) path"
proof -
  from assms have shape:
    "st' = st \<or> st' = fs_remove st file \<or> (\<exists>content. st' = snd (writeToFile st file content))"
    by (auto simp: merge_file_def Let_def split: if_splits sum.splits)
  from shape show "dirs st' = dirs st"
    by (auto simp: writeToFile_def fs_remove_def split: if_splits)
  from shape show "writable st' = writable st"
    by (auto simp: writeToFile_def fs_remove_def split: if_splits)
  from shape show "fmlookup (files st') path = fmlookup (files st) path" if "path \<noteq> file"
    using that by (auto simp: writeToFile_def fs_remove_def split: if_splits)
qed

lemma merge_files_frame:
  "merge_files st branchName lcaFiles targetFiles paths conflictsExist mergedFiles = (r, st')
     \<Longrightarrow> dirs st' = dirs st \<and> writable st' = writable st
       \<and> (\<forall>path. path \<notin> set paths \<longrightarrow> fmlookup (files st') path = fmlookup (files st) path)"
proof (induction paths arbitrary: st conflictsExist mergedFiles)
  case Nil
  then show ?case by simp
next
  case (Cons p rest)
  obtain r1 st1 where
    step: "merge_file st branchName lcaFiles targetFiles p conflictsExist mergedFiles = (r1, st1)"
    by (cases "merge_file st branchName lcaFiles targetFiles p conflictsExist mergedFiles")
  note frame1 = merge_file_frame[OF step]
  show ?case
  proof (cases r1)
    case (Inl e)
    with Cons.prems step have "st' = st1" by simp
    with frame1 show ?thesis by simp
  next
    case (Inr cm)
    obtain c1 m1 where cm: "cm = (c1, m1)" by (cases cm)
    from Cons.prems step Inr cm
    have run: "merge_files st1 branchName lcaFiles targetFiles rest c1 m1 = (r, st')"
      by simp
    from Cons.IH[OF run] frame1 show ?thesis by simp
  qed
qed

lemma merge_file_flag:
  assumes "merge_file st branchName lcaFiles targetFiles file conflictsExist mergedFiles
             = (Inr (conflictsExist', mergedFiles'), st')"
  shows "conflictsExist \<Longrightarrow> conflictsExist'"
    and "other \<noteq> file \<Longrightarrow> blob_or_empty mergedFiles' other = blob_or_empty mergedFiles other"
proof -
  from assms have shape:
    "(conflictsExist' = conflictsExist \<or> conflictsExist')
     \<and> (mergedFiles' = mergedFiles \<or> mergedFiles' = AList.delete file mergedFiles
        \<or> (\<exists>blob. mergedFiles' = AList.update file blob mergedFiles))"
    by (auto simp: merge_file_def Let_def split: if_splits sum.splits)
  from shape show "conflictsExist'" if "conflictsExist"
    using that by auto
  from shape show "blob_or_empty mergedFiles' other = blob_or_empty mergedFiles other"
    if "other \<noteq> file"
    using that by (auto simp: blob_or_empty_def update_conv' delete_conv')
qed

lemma merge_file_conflict:
  assumes "classified_conflict (blob_or_empty lcaFiles file) (blob_or_empty mergedFiles file)
             (blob_or_empty targetFiles file)"
    and "merge_file st branchName lcaFiles targetFiles file conflictsExist mergedFiles
           = (Inr (conflictsExist', mergedFiles'), st')"
  shows "conflictsExist'"
  using assms
  by (auto simp: classified_conflict_def merge_file_def Let_def split: if_splits sum.splits)

lemma merge_files_flag_kept:
  "merge_files st branchName lcaFiles targetFiles paths True mergedFiles
     = (Inr (conflictsExist', mergedFiles'), st') \<Longrightarrow> conflictsExist'"
proof (induction paths arbitrary: st mergedFiles)
  case Nil
  then show ?case by simp
next
  case (Cons p rest)
  obtain r1 st1 where
    step: "merge_file st branchName lcaFiles targetFiles p True mergedFiles = (r1, st1)"
    by (cases "merge_file st branchName lcaFiles targetFiles p True mergedFiles")
  show ?case
  proof (cases r1)
    case (Inl e)
    with Cons.prems step show ?thesis by simp
  next
    case (Inr cm)
    obtain c1 m1 where cm: "cm = (c1, m1)" by (cases cm)
    from merge_file_flag(1)[OF step[unfolded Inr cm]] have "c1" by simp
    with Cons.prems step Inr cm
    have "merge_files st1 branchName lcaFiles targetFiles rest True m1
            = (Inr (conflictsExist', mergedFiles'), st')"
      by simp
    then show ?thesis by (rule Cons.IH)
  qed
qed

lemma merge_files_conflict:
  "file \<in> set paths \<Longrightarrow> distinct paths
   \<Longrightarrow> classified_conflict (blob_or_empty lcaFiles file) (blob_or_empty mergedFiles file)
         (blob_or_empty targetFiles file)
   \<Longrightarrow> merge_files st branchName lcaFiles targetFiles paths conflictsExist mergedFiles
         = (Inr (conflictsExist', mergedFiles'), st')
   \<Longrightarrow> conflictsExist'"
proof (induction paths arbitrary: st conflictsExist mergedFiles)
  case Nil
  then show ?case by simp
next
  case (Cons p rest)
  obtain r1 st1 where
    step: "merge_file st branchName lcaFiles targetFiles p conflictsExist mergedFiles = (r1, st1)"
    by (cases "merge_file st branchName lcaFiles targetFiles p conflictsExist mergedFiles")
  show ?case
  proof (cases r1)
    case (Inl e)
    with Cons.prems(4) step show ?thesis by simp
  next
    case (Inr cm)
    obtain c1 m1 where cm: "cm = (c1, m1)" by (cases cm)
    note step' = step[unfolded Inr cm]
    from Cons.prems(4) step Inr cm
    have run: "merge_files st1 branchName lcaFiles targetFiles rest c1 m1
                 = (Inr (conflictsExist', mergedFiles'), st')"
      by simp
    show ?thesis
    proof (cases "p = file")
      case True
      with Cons.prems(3) step' have "c1"
        by (auto dest: merge_file_conflict)
      with run show ?thesis
        by (auto dest: merge_files_flag_kept)
    next
      case False
      with Cons.prems(1,2) have mem: "file \<in> set rest" and dist: "distinct rest"
        by auto
      from False have "blob_or_empty m1 file = blob_or_empty mergedFiles file"
        by (intro merge_file_flag(2)[OF step']) simp
      with Cons.prems(3) have
        "classified_conflict (blob_or_empty lcaFiles file) (blob_or_empty m1 file)
           (blob_or_empty targetFiles file)"
        by simp
      from Cons.IH[OF mem dist this run] show ?thesis .
    qed
  qed
qed

lemma allFiles_distinct: "distinct (allFiles mergedFiles targetFiles lcaFiles)"
  by (simp add: allFiles_def)

lemma allFiles_set:
  "set (allFiles mergedFiles targetFiles lcaFiles)
     = fst ` set mergedFiles \<union> fst ` set targetFiles \<union> fst ` set lcaFiles"
  by (simp add: allFiles_def Un_assoc)

lemma blob_or_empty_present: "blob_or_empty m file \<noteq> [] \<Longrightarrow> file \<in> fst ` set m"
  by (auto simp: blob_or_empty_def split: option.splits dest: map_of_SomeD intro: rev_image_eqI)


lemma inside_repo_paths:
  "inside_repo (OBJECTS_DIR @ ''/'' @ digest)" "inside_repo HEAD_FILE"
  "inside_repo (HEADS_DIR @ ''/'' @ b)"
  by (simp_all add: inside_repo_def layout_defs)

text \<open>
  C2. When the three commits of a merge of two distinct tips load and some path is
  classified as a conflict, the merge ends after the loop over the files, with the
  conflict report or with an exception of the loop, never with a merge commit: the
  staging area is unchanged and only files named by the three commits can differ on
  disk. So, unless a commit tracks a path inside the metadata directory, no object is
  written to the object store and neither \<^verbatim>\<open>HEAD\<close> nor any branch reference changes.
\<close>

theorem merge_conflict_no_commit:
  assumes head: "getHeadCommitHash (disk g) = currentHash" "currentHash \<noteq> []"
    and branch: "readFromFile (disk g) (HEADS_DIR @ ''/'' @ branchName) = Some targetHash"
      "currentHash \<noteq> targetHash"
    and loads: "loadCommit E (disk g) currentHash = Inr currentCommit"
      "loadCommit E (disk g) targetHash = Inr targetCommit"
      "(if findLCA E (disk g) currentHash targetHash = [] then Inr CommitNode_default
        else loadCommit E (disk g) (findLCA E (disk g) currentHash targetHash)) = Inr lcaCommit"
    and conflict: "classified_conflict (blob_or_empty (fileBlobs lcaCommit) file)
      (blob_or_empty (fileBlobs currentCommit) file) (blob_or_empty (fileBlobs targetCommit) file)"
  shows "(fst (merge E g branchName) = Inr Conflicted \<or> (\<exists>e. fst (merge E g branchName) = Inl e))
    \<and> stagingArea (snd (merge E g branchName)) = stagingArea g
    \<and> (\<forall>path. path \<notin> set (allFiles (fileBlobs currentCommit) (fileBlobs targetCommit)
                               (fileBlobs lcaCommit))
          \<longrightarrow> readFromFile (disk (snd (merge E g branchName))) path = readFromFile (disk g) path)
    \<and> ((\<forall>path \<in> set (allFiles (fileBlobs currentCommit) (fileBlobs targetCommit)
                        (fileBlobs lcaCommit)). \<not> inside_repo path)
          \<longrightarrow> (\<forall>digest. objects (disk (snd (merge E g branchName))) digest = objects (disk g) digest)
            \<and> readFromFile (disk (snd (merge E g branchName))) HEAD_FILE
                = readFromFile (disk g) HEAD_FILE
            \<and> (\<forall>b. readFromFile (disk (snd (merge E g branchName))) (HEADS_DIR @ ''/'' @ b)
                = readFromFile (disk g) (HEADS_DIR @ ''/'' @ b)))"
proof -
  let ?paths = "allFiles (fileBlobs currentCommit) (fileBlobs targetCommit) (fileBlobs lcaCommit)"
  obtain r1 st1 where
    loop: "merge_files (disk g) branchName (fileBlobs lcaCommit) (fileBlobs targetCommit) ?paths
             False (fileBlobs currentCommit) = (r1, st1)"
    by (cases "merge_files (disk g) branchName (fileBlobs lcaCommit) (fileBlobs targetCommit) ?paths
             False (fileBlobs currentCommit)")
  from conflict have "blob_or_empty (fileBlobs lcaCommit) file \<noteq> []"
    by (auto simp: classified_conflict_def)
  then have mem: "file \<in> set ?paths"
    by (auto simp: allFiles_set dest: blob_or_empty_present)
  have stopped: "merge E g branchName = (Inr Conflicted, g\<lparr>disk := st1\<rparr>)
                 \<or> (\<exists>e. merge E g branchName = (Inl e, g\<lparr>disk := st1\<rparr>))"
  proof (cases r1)
    case (Inl e)
    with head branch loads loop show ?thesis
      by (simp add: merge_def Let_def)
  next
    case (Inr cm)
    obtain c1 m1 where cm: "cm = (c1, m1)" by (cases cm)
    from merge_files_conflict[OF mem allFiles_distinct conflict loop[unfolded Inr cm]]
    have "c1" .
    with head branch loads loop Inr cm show ?thesis
      by (simp add: merge_def Let_def)
  qed
  then have out: "fst (merge E g branchName) = Inr Conflicted \<or> (\<exists>e. fst (merge E g branchName) = Inl e)"
    and after: "snd (merge E g branchName) = g\<lparr>disk := st1\<rparr>"
    by auto
  from merge_files_frame[OF loop]
  have frame: "\<forall>path. path \<notin> set ?paths \<longrightarrow> fmlookup (files st1) path = fmlookup (files (disk g)) path"
    by simp
  have meta: "fmlookup (files st1) path = fmlookup (files (disk g)) path"
    if "\<forall>p \<in> set ?paths. \<not> inside_repo p" "inside_repo path" for path
    using that frame by blast
  show ?thesis
    using out frame meta inside_repo_paths
    by (simp add: after readFromFile_def objects_def)
qed


lemma demo_commit_files:
  "loadCommit demo_env (demo_disk head) ''#T''
     = Inr \<lparr>message = ''T'', timestamp = ''t2'', parentHashes = [''#A''], fileBlobs = [(''f'', ''#Y'')]\<rparr>"
  "loadCommit demo_env (demo_disk head) ''#C''
     = Inr \<lparr>message = ''C'', timestamp = ''t6'', parentHashes = [''#A''], fileBlobs = [(''f'', ''#Z'')]\<rparr>"
  "loadCommit demo_env (demo_disk head) ''#A''
     = Inr \<lparr>message = ''A'', timestamp = ''t0'', parentHashes = [], fileBlobs = [(''f'', ''#X'')]\<rparr>"
  by (simp_all add: loadCommit_def demo_simps)

theorem merge_conflict_no_commit_witness:
  "getHeadCommitHash (disk (MiniGit_new (demo_disk ''topic''))) = ''#T''
   \<and> readFromFile (disk (MiniGit_new (demo_disk ''topic''))) (HEADS_DIR @ ''/'' @ ''clash'') = Some ''#C''
   \<and> findLCA demo_env (disk (MiniGit_new (demo_disk ''topic''))) ''#T'' ''#C'' = ''#A''
   \<and> classified_conflict ''#X'' ''#Y'' ''#Z''
   \<and> fst (merge demo_env (MiniGit_new (demo_disk ''topic'')) ''clash'') = Inr Conflicted
   \<and> readFromFile (disk (snd (merge demo_env (MiniGit_new (demo_disk ''topic'')) ''clash''))) ''f''
       = Some (''<<<<<<< HEAD'' @ [CHR 0x0A] @ ''Y======='' @ [CHR 0x0A] @ ''Z>>>>>>> clash'' @ [CHR 0x0A])
   \<and> (\<forall>digest. objects (disk (snd (merge demo_env (MiniGit_new (demo_disk ''topic'')) ''clash''))) digest
         = objects (demo_disk ''topic'') digest)
   \<and> readFromFile (disk (snd (merge demo_env (MiniGit_new (demo_disk ''topic'')) ''clash''))) HEAD_FILE
       = Some ''ref: refs/heads/topic''
   \<and> readFromFile (disk (snd (merge demo_env (MiniGit_new (demo_disk ''topic'')) ''clash'')))
         (HEADS_DIR @ ''/'' @ ''topic'') = Some ''#T''"
proof -
  let ?g = "MiniGit_new (demo_disk ''topic'')"
  let ?cur = "\<lparr>message = ''T'', timestamp = ''t2'', parentHashes = [''#A''], fileBlobs = [(''f'', ''#Y'')]\<rparr>"
  let ?tgt = "\<lparr>message = ''C'', timestamp = ''t6'', parentHashes = [''#A''], fileBlobs = [(''f'', ''#Z'')]\<rparr>"
  let ?lca = "\<lparr>message = ''A'', timestamp = ''t0'', parentHashes = [], fileBlobs = [(''f'', ''#X'')]\<rparr>"
  have disk: "disk ?g = demo_disk ''topic''"
    by (simp add: MiniGit_new_def)
  have h1: "getHeadCommitHash (disk ?g) = ''#T''"
    by (simp add: getHeadCommitHash_def demo_simps)
  have h2: "''#T'' \<noteq> ([] :: string)"
    by simp
  have h3: "readFromFile (disk ?g) (HEADS_DIR @ ''/'' @ ''clash'') = Some ''#C''"
    by (simp add: demo_simps)
  have h4: "''#T'' \<noteq> ''#C''"
    by simp
  have h5: "loadCommit demo_env (disk ?g) ''#T'' = Inr ?cur"
    and h6: "loadCommit demo_env (disk ?g) ''#C'' = Inr ?tgt"
    by (simp_all add: disk demo_commit_files)
  have lca: "findLCA demo_env (disk ?g) ''#T'' ''#C'' = ''#A''"
    by (simp add: demo_run_simps)
  have h7: "(if findLCA demo_env (disk ?g) ''#T'' ''#C'' = [] then Inr CommitNode_default
             else loadCommit demo_env (disk ?g) (findLCA demo_env (disk ?g) ''#T'' ''#C'')) = Inr ?lca"
    unfolding lca by (simp add: disk demo_commit_files)
  have cls: "classified_conflict ''#X'' ''#Y'' ''#Z''"
    by (simp add: classified_conflict_def)
  then have h8: "classified_conflict (blob_or_empty (fileBlobs ?lca) ''f'')
      (blob_or_empty (fileBlobs ?cur) ''f'') (blob_or_empty (fileBlobs ?tgt) ''f'')"
    by (simp add: blob_or_empty_def)
  have outside: "\<forall>path \<in> set (allFiles (fileBlobs ?cur) (fileBlobs ?tgt) (fileBlobs ?lca)). \<not> inside_repo path"
    by (simp add: allFiles_def inside_repo_def layout_defs)
  have outcome: "fst (merge demo_env ?g ''clash'') = Inr Conflicted"
    by (simp add: demo_run_simps)
  have marked: "readFromFile (disk (snd (merge demo_env ?g ''clash''))) ''f''
       = Some (''<<<<<<< HEAD'' @ [CHR 0x0A] @ ''Y======='' @ [CHR 0x0A] @ ''Z>>>>>>> clash'' @ [CHR 0x0A])"
    by (simp add: demo_run_simps)
  note inst = merge_conflict_no_commit[OF h1 h2 h3 h4 h5 h6 h7 h8]
  from inst outside
  have kept: "\<forall>digest. objects (disk (snd (merge demo_env ?g ''clash''))) digest = objects (disk ?g) digest"
    and head_kept: "readFromFile (disk (snd (merge demo_env ?g ''clash''))) HEAD_FILE
       = readFromFile (disk ?g) HEAD_FILE"
    and branch_kept: "readFromFile (disk (snd (merge demo_env ?g ''clash''))) (HEADS_DIR @ ''/'' @ ''topic'')
       = readFromFile (disk ?g) (HEADS_DIR @ ''/'' @ ''topic'')"
    by blast+
  have before: "readFromFile (disk ?g) HEAD_FILE = Some ''ref: refs/heads/topic''"
    "readFromFile (disk ?g) (HEADS_DIR @ ''/'' @ ''topic'') = Some ''#T''"
    by (simp_all add: demo_simps)
  from kept have kept': "\<forall>digest. objects (disk (snd (merge demo_env ?g ''clash''))) digest
         = objects (demo_disk ''topic'') digest"
    unfolding disk .
  show ?thesis
    by (intro conjI h1 h3 lca cls outcome marked kept' head_kept[unfolded before]
        branch_kept[unfolded before])
qed

section \<open>Where the code departs from the specification\<close>

text \<open>
  What one iteration of the merge loop does, by the three blobs of the path (the empty
  string for an absent path): the first three tests of the source and the cases in
  which no test holds. These cases are exhaustive, so the fourth test of the source
  (target deleted the file) never decides an iteration: whenever it would hold, the
  second test (current equal to the ancestor) or the third (current different) has held
  before it, with the empty string as the target's blob.
\<close>

lemma merge_file_rows:
  assumes "lcaBlob = blob_or_empty lcaFiles file"
    and "currentBlob = blob_or_empty mergedFiles file"
    and "targetBlob = blob_or_empty targetFiles file"
  shows "lcaBlob = [] \<Longrightarrow> currentBlob = [] \<Longrightarrow> getBlobContent st targetBlob = Inr content
           \<Longrightarrow> merge_file st branchName lcaFiles targetFiles file conflictsExist mergedFiles
               = (Inr (conflictsExist, AList.update file targetBlob mergedFiles),
                  snd (writeToFile st file content))"
    and "lcaBlob \<noteq> [] \<Longrightarrow> currentBlob = lcaBlob \<Longrightarrow> targetBlob \<noteq> lcaBlob
           \<Longrightarrow> getBlobContent st targetBlob = Inr content
           \<Longrightarrow> merge_file st branchName lcaFiles targetFiles file conflictsExist mergedFiles
               = (Inr (conflictsExist, AList.update file targetBlob mergedFiles),
                  snd (writeToFile st file content))"
    and "lcaBlob \<noteq> [] \<Longrightarrow> currentBlob \<noteq> lcaBlob \<Longrightarrow> targetBlob \<noteq> lcaBlob
           \<Longrightarrow> currentBlob \<noteq> targetBlob
           \<Longrightarrow> getBlobContent st currentBlob = Inr currentContent
           \<Longrightarrow> getBlobContent st targetBlob = Inr targetContent
           \<Longrightarrow> merge_file st branchName lcaFiles targetFiles file conflictsExist mergedFiles
               = (Inr (True, mergedFiles),
                  snd (writeToFile st file
                    (''<<<<<<< HEAD'' @ [CHR 0x0A] @ currentContent @ ''======='' @ [CHR 0x0A]
                     @ targetContent @ ''>>>>>>> '' @ branchName @ [CHR 0x0A])))"
    and "lcaBlob = [] \<Longrightarrow> currentBlob \<noteq> []
           \<Longrightarrow> merge_file st branchName lcaFiles targetFiles file conflictsExist mergedFiles
               = (Inr (conflictsExist, mergedFiles), st)"
    and "lcaBlob \<noteq> [] \<Longrightarrow> currentBlob = targetBlob
           \<Longrightarrow> merge_file st branchName lcaFiles targetFiles file conflictsExist mergedFiles
               = (Inr (conflictsExist, mergedFiles), st)"
    and "lcaBlob \<noteq> [] \<Longrightarrow> targetBlob = lcaBlob
           \<Longrightarrow> merge_file st branchName lcaFiles targetFiles file conflictsExist mergedFiles
               = (Inr (conflictsExist, mergedFiles), st)"
  unfolding merge_file_def Let_def assms[symmetric]
  by auto

text \<open>
  Hence an iteration that does not throw never removes a path from \<^verbatim>\<open>mergedFiles\<close> nor a
  file from the disk.
\<close>

lemma merge_file_never_removes:
  assumes "merge_file st branchName lcaFiles targetFiles file conflictsExist mergedFiles
             = (Inr (conflictsExist', mergedFiles'), st')"
  shows "fst ` set mergedFiles \<subseteq> fst ` set mergedFiles'"
    and "fmdom' (files st) \<subseteq> fmdom' (files st')"
proof -
  from assms have shape:
    "(mergedFiles' = mergedFiles \<or> (\<exists>blob. mergedFiles' = AList.update file blob mergedFiles))
     \<and> (st' = st \<or> (\<exists>content. st' = snd (writeToFile st file content)))"
    by (auto simp: merge_file_def Let_def split: if_splits sum.splits)
  from shape show "fst ` set mergedFiles \<subseteq> fst ` set mergedFiles'"
    by (force simp: dom_update)
  from shape show "fmdom' (files st) \<subseteq> fmdom' (files st')"
    by (auto simp: writeToFile_def fmlookup_dom'_iff split: if_splits)
qed

text \<open>
  C1 (the code departs from the claim in the two delete rows). Ancestor \<open>{f: X}\<close>,
  current \<open>{f: X}\<close>, target \<open>{}\<close>: the claim has \<open>f\<close> deleted from the merge result and
  from the working tree. Ancestor \<open>{f: X}\<close>, current \<open>{f: Y}\<close>, target \<open>{}\<close>: the claim
  has a delete/modify conflict flagged. In the first run the code takes the row
  "only target changed", in the second the row "both changed, differently"; both ask
  the object store for the blob of the empty digest, and with no object stored under
  it the merge ends with the exception \<^verbatim>\<open>Blob not found: \<close>, the repository left as it
  was: \<open>f\<close> is not deleted and no conflict is reported.
\<close>

theorem merge_delete_rows_throw:
  "merge demo_env (MiniGit_new (demo_disk ''master'')) ''prune''
     = (Inl (runtime_error ''Blob not found: ''), MiniGit_new (demo_disk ''master''))
   \<and> merge demo_env (MiniGit_new (demo_disk ''topic'')) ''prune''
     = (Inl (runtime_error ''Blob not found: ''), MiniGit_new (demo_disk ''topic''))"
  by (simp add: demo_run_simps)

text \<open>
  Every successful commit and every successful merge writes the new digest into the
  reference of \<open>master\<close> and points \<^verbatim>\<open>HEAD\<close> at \<open>master\<close>, whatever branch \<^verbatim>\<open>HEAD\<close> named
  before; a commit leaves the reference of every other branch as it was.
\<close>

lemma updateHead_branch:
  assumes "updateHead st commitHash True branchName = (Inr u, st')"
  shows "readFromFile st' HEAD_FILE = Some (''ref: refs/heads/'' @ branchName)"
    and "readFromFile st' (HEADS_DIR @ ''/'' @ branchName) = Some commitHash"
    and "path \<noteq> HEAD_FILE \<Longrightarrow> path \<noteq> HEADS_DIR @ ''/'' @ branchName
           \<Longrightarrow> readFromFile st' path = readFromFile st path"
  using assms
  by (auto simp: updateHead_def writeToFile_def readFromFile_def Let_def layout_defs
      split: if_splits)

lemma saveIndex_frame:
  "saveIndex st staging = (r, st') \<Longrightarrow> path \<noteq> INDEX_FILE
     \<Longrightarrow> readFromFile st' path = readFromFile st path"
  by (auto simp: saveIndex_def writeToFile_def readFromFile_def Let_def split: if_splits)

lemma commit_updates_master:
  assumes "commit E g msg = (Inr (Committed digest), g')"
  shows "readFromFile (disk g') HEAD_FILE = Some ''ref: refs/heads/master''"
    and "readFromFile (disk g') (HEADS_DIR @ ''/'' @ ''master'') = Some digest"
    and "b \<noteq> ''master'' \<Longrightarrow> HEADS_DIR @ ''/'' @ b \<noteq> OBJECTS_DIR @ ''/'' @ digest \<Longrightarrow>
         readFromFile (disk g') (HEADS_DIR @ ''/'' @ b) = readFromFile (disk g) (HEADS_DIR @ ''/'' @ b)"
proof -
  from assms obtain st1 st2 where
    w: "writeToFile (disk g) (OBJECTS_DIR @ ''/'' @ digest) (serialize E
          (CommitNode_new E msg (if getHeadCommitHash (disk g) \<noteq> [] then [getHeadCommitHash (disk g)] else [])
            (stagingArea g))) = (True, st1)"
    and u: "updateHead st1 digest True ''master'' = (Inr (), st2)"
    and s: "saveIndex st2 [] = (Inr (), disk g')"
    by (auto simp: commit_def Let_def split: prod.splits if_splits sum.splits)
  have idx: "readFromFile (disk g') path = readFromFile st2 path" if "path \<noteq> INDEX_FILE" for path
    using s that by (rule saveIndex_frame)
  show "readFromFile (disk g') HEAD_FILE = Some ''ref: refs/heads/master''"
    using updateHead_branch(1)[OF u] by (simp add: idx layout_defs)
  show "readFromFile (disk g') (HEADS_DIR @ ''/'' @ ''master'') = Some digest"
    using updateHead_branch(2)[OF u] by (simp add: idx layout_defs)
  show "readFromFile (disk g') (HEADS_DIR @ ''/'' @ b) = readFromFile (disk g) (HEADS_DIR @ ''/'' @ b)"
    if "b \<noteq> ''master''" "HEADS_DIR @ ''/'' @ b \<noteq> OBJECTS_DIR @ ''/'' @ digest"
  proof -
    have "readFromFile (disk g') (HEADS_DIR @ ''/'' @ b) = readFromFile st2 (HEADS_DIR @ ''/'' @ b)"
      by (rule idx) (simp add: layout_defs)
    also have "\<dots> = readFromFile st1 (HEADS_DIR @ ''/'' @ b)"
      using that by (intro updateHead_branch(3)[OF u]) (simp_all add: layout_defs)
    also have "\<dots> = readFromFile (disk g) (HEADS_DIR @ ''/'' @ b)"
      using w that by (auto simp: writeToFile_def readFromFile_def split: if_splits)
    finally show ?thesis .
  qed
qed

lemma merge_updates_master:
  assumes "merge E g branchName = (Inr (Merged digest), g')"
  shows "readFromFile (disk g') HEAD_FILE = Some ''ref: refs/heads/master''"
    and "readFromFile (disk g') (HEADS_DIR @ ''/'' @ ''master'') = Some digest"
proof -
  from assms have "\<exists>st2. updateHead st2 digest True ''master'' = (Inr (), disk g')"
    by (auto simp: merge_def Let_def split: prod.splits if_splits sum.splits option.splits)
  then obtain st2 where u: "updateHead st2 digest True ''master'' = (Inr (), disk g')"
    by blast
  from updateHead_branch(1,2)[OF u]
  show "readFromFile (disk g') HEAD_FILE = Some ''ref: refs/heads/master''"
    and "readFromFile (disk g') (HEADS_DIR @ ''/'' @ ''master'') = Some digest"
    by simp_all
qed

text \<open>
  C3 (the code departs from the claim). With \<^verbatim>\<open>HEAD\<close> on branch \<open>dev\<close>, a conflict-free
  merge of \<open>topic\<close> and a commit both write the new digest into the reference of
  \<open>master\<close> and repoint \<^verbatim>\<open>HEAD\<close> to \<open>master\<close>; the reference of \<open>dev\<close> stays at its old
  commit.
\<close>

theorem commit_and_merge_move_master:
  "(case merge demo_env (MiniGit_new (demo_disk ''dev'')) ''topic'' of (r, g') \<Rightarrow>
      r = Inr (Merged (''#Merge branch '' @ [CHR 0x27] @ ''topic'' @ [CHR 0x27]))
      \<and> readFromFile (disk g') HEAD_FILE = Some ''ref: refs/heads/master''
      \<and> readFromFile (disk g') (HEADS_DIR @ ''/master'')
          = Some (''#Merge branch '' @ [CHR 0x27] @ ''topic'' @ [CHR 0x27])
      \<and> readFromFile (disk g') (HEADS_DIR @ ''/dev'') = Some ''#D'')
   \<and> (case commit demo_env (MiniGit_new (demo_disk ''dev'')) ''m'' of (r, g') \<Rightarrow>
      r = Inr (Committed ''#m'')
      \<and> readFromFile (disk g') HEAD_FILE = Some ''ref: refs/heads/master''
      \<and> readFromFile (disk g') (HEADS_DIR @ ''/master'') = Some ''#m''
      \<and> readFromFile (disk g') (HEADS_DIR @ ''/dev'') = Some ''#D'')"
  by (simp add: demo_run_simps)

lemma saveIndex_empty:
  "saveIndex st [] = (Inr u, st') \<Longrightarrow> readFromFile st' INDEX_FILE = Some []"
  by (auto simp: saveIndex_def writeToFile_def readFromFile_def Let_def split: if_splits)

lemma commit_clears_index:
  assumes "commit E g msg = (Inr (Committed digest), g')"
  shows "stagingArea g' = []" and "readFromFile (disk g') INDEX_FILE = Some []"
    and "loadIndex (disk g') = []"
proof -
  from assms have "\<exists>st2. saveIndex st2 [] = (Inr (), disk g')"
    by (auto simp: commit_def Let_def split: prod.splits if_splits sum.splits)
  then show rd: "readFromFile (disk g') INDEX_FILE = Some []"
    by (auto dest: saveIndex_empty)
  then show "loadIndex (disk g') = []"
    by (simp add: loadIndex_def getlines_def)
  from assms show "stagingArea g' = []"
    by (auto simp: commit_def Let_def split: prod.splits if_splits sum.splits)
qed

text \<open>
  \<^verbatim>\<open>checkout\<close> writes the files of the target commit and the references, never the
  index file (unless a commit tracks the index file itself).
\<close>

lemma checkout_files_frame:
  "checkout_files st blobs = (r, st') \<Longrightarrow> path \<notin> fst ` set blobs
     \<Longrightarrow> readFromFile st' path = readFromFile st path"
proof (induction st blobs rule: checkout_files.induct)
  case (1 st)
  then show ?case by simp
next
  case (2 st p hash rest)
  show ?case
  proof (cases "getBlobContent st hash")
    case (Inl e)
    with "2.prems" show ?thesis by simp
  next
    case (Inr content)
    with "2.prems" have run: "checkout_files (snd (writeToFile st p content)) rest = (r, st')"
      by simp
    from "2.prems"(2) have "path \<notin> fst ` set rest" and ne: "path \<noteq> p"
      by auto
    from "2.IH"[OF Inr run this(1)]
    have "readFromFile st' path = readFromFile (snd (writeToFile st p content)) path" .
    also have "\<dots> = readFromFile st path"
      using ne by (simp add: writeToFile_def readFromFile_def)
    finally show ?thesis .
  qed
qed

lemma checkout_index_untouched:
  assumes "checkout E g target = (r, g')"
    and untracked: "\<And>h c. loadCommit E (disk g) h = Inr c \<Longrightarrow> INDEX_FILE \<notin> fst ` set (fileBlobs c)"
  shows "readFromFile (disk g') INDEX_FILE = readFromFile (disk g) INDEX_FILE"
proof -
  have upd: "readFromFile st' INDEX_FILE = readFromFile st INDEX_FILE"
    if "updateHead st h isBranch b = (r', st')" for st st' h isBranch b r'
    using that
    by (auto simp: updateHead_def writeToFile_def readFromFile_def Let_def layout_defs
        split: if_splits)
  from assms(1) show ?thesis
    by (auto simp: checkout_def Let_def split: prod.splits if_splits sum.splits option.splits
        dest!: upd checkout_files_frame[where path = INDEX_FILE] untracked)
qed

text \<open>
  C8 (the code departs from the claim for checkout). After a successful commit the
  staging area is empty in memory and in the index file (\<open>commit_clears_index\<close>). After
  a successful checkout the staging area is empty in memory only: the index file still
  holds the staged entry, and the next invocation of the program loads it again.
\<close>

theorem checkout_keeps_index_file:
  "(case checkout demo_env (MiniGit_new (demo_disk ''dev'')) ''master'' of (r, g') \<Rightarrow>
      r = Inr ()
      \<and> stagingArea g' = []
      \<and> readFromFile (disk g') INDEX_FILE = Some (''g #X'' @ [CHR 0x0A])
      \<and> stagingArea (MiniGit_new (disk g')) = [(''g'', ''#X'')])"
  by (simp add: demo_run_simps)

end
